theory Spec2Isabelle
  imports Main "HOL-Library.Word"
begin

unbundle bit_operations_syntax

section \<open>Buffers, errors and the Node.js primitives used by \<open>src/util.ts\<close>\<close>

text \<open>
  A Node \<open>Buffer\<close> is a list of bytes.  A JavaScript \<open>number\<close> that holds an integer and a
  \<open>bigint\<close> are both modelled as \<open>int\<close>.  Every \<open>throw\<close> of the source or of a library call
  is a value \<open>Inl e\<close> of the result type \<open>error + 'a\<close>; an \<open>async\<close> function that rejects is
  the same \<open>Inl e\<close>.
\<close>

type_synonym byte = "8 word"
type_synonym bytes = "byte list"

datatype error =
    ERR_OUT_OF_RANGE
  | ERR_BUFFER_OUT_OF_BOUNDS
  | ERR_CRYPTO_INVALID_IV
  | ERR_CRYPTO_INVALID_KEYLEN
  | ERR_OSSL_WRONG_FINAL_BLOCK_LENGTH
  | ERR_OSSL_BAD_DECRYPT
  | RSA_KEY_ERROR
  | RSA_ENCRYPT_ERROR
  | RSA_DECRYPT_ERROR

definition and_then :: "error + 'a \<Rightarrow> ('a \<Rightarrow> error + 'b) \<Rightarrow> error + 'b" where
  "and_then r f = (case r of Inl e \<Rightarrow> Inl e | Inr x \<Rightarrow> f x)"

subsection \<open>Little-endian integers in a buffer\<close>

fun le_bytes :: "nat \<Rightarrow> int \<Rightarrow> bytes" where
  "le_bytes 0 v = []"
| "le_bytes (Suc n) v = word_of_int v # le_bytes n (v div 256)"

fun le_value :: "bytes \<Rightarrow> int" where
  "le_value [] = 0"
| "le_value (b # bs) = uint b + 256 * le_value bs"

text \<open>The error of \<open>Buffer\<close>'s bounds check for a field of \<open>w\<close> bytes that does not fit at
  its offset: \<open>ERR_BUFFER_OUT_OF_BOUNDS\<close> when the buffer is shorter than the field,
  \<open>ERR_OUT_OF_RANGE\<close> when the field fits somewhere but not at the offset.\<close>

definition bounds_error :: "nat \<Rightarrow> bytes \<Rightarrow> error" where
  "bounds_error w buf = (if length buf < w then ERR_BUFFER_OUT_OF_BOUNDS else ERR_OUT_OF_RANGE)"

definition write_at :: "bytes \<Rightarrow> nat \<Rightarrow> bytes \<Rightarrow> bytes" where
  "write_at buf off bs = take off buf @ bs @ drop (off + length bs) buf"

text \<open>\<open>buf.writeUInt8(value, offset)\<close> and its wider siblings: a value outside the unsigned
  range of the field raises \<open>ERR_OUT_OF_RANGE\<close>, a field that does not fit the buffer raises
  the error of the bounds check.\<close>

definition write_uint_le :: "nat \<Rightarrow> bytes \<Rightarrow> int \<Rightarrow> nat \<Rightarrow> error + bytes" where
  "write_uint_le w buf v off =
     (if v < 0 \<or> 2 ^ (8 * w) \<le> v then Inl ERR_OUT_OF_RANGE
      else if length buf < off + w then Inl (bounds_error w buf)
      else Inr (write_at buf off (le_bytes w v)))"

definition writeUInt8 :: "bytes \<Rightarrow> int \<Rightarrow> nat \<Rightarrow> error + bytes" where
  "writeUInt8 = write_uint_le 1"

definition writeUInt32LE :: "bytes \<Rightarrow> int \<Rightarrow> nat \<Rightarrow> error + bytes" where
  "writeUInt32LE = write_uint_le 4"

definition writeBigUInt64LE :: "bytes \<Rightarrow> int \<Rightarrow> nat \<Rightarrow> error + bytes" where
  "writeBigUInt64LE = write_uint_le 8"

text \<open>\<open>buf.readUInt8(offset)\<close> and its siblings: a field that does not fit the buffer at the
  offset raises the error of the bounds check.\<close>

definition read_uint_le :: "nat \<Rightarrow> bytes \<Rightarrow> nat \<Rightarrow> error + int" where
  "read_uint_le w buf off =
     (if length buf < off + w then Inl (bounds_error w buf)
      else Inr (le_value (take w (drop off buf))))"

definition readUInt8 :: "bytes \<Rightarrow> nat \<Rightarrow> error + int" where
  "readUInt8 = read_uint_le 1"

definition readUInt32LE :: "bytes \<Rightarrow> nat \<Rightarrow> error + int" where
  "readUInt32LE = read_uint_le 4"

definition readBigUInt64LE :: "bytes \<Rightarrow> nat \<Rightarrow> error + int" where
  "readBigUInt64LE = read_uint_le 8"

definition readInt8 :: "bytes \<Rightarrow> nat \<Rightarrow> error + int" where
  "readInt8 buf off =
     (if length buf < off + 1 then Inl (bounds_error 1 buf) else Inr (sint (buf ! off)))"

text \<open>\<open>buf.subarray(start, end)\<close>: a negative index counts from the end, both indices are
  clamped to the buffer, and an end before the start gives the empty buffer.\<close>

definition subarray :: "bytes \<Rightarrow> int \<Rightarrow> int \<Rightarrow> bytes" where
  "subarray buf start end =
     (let n = int (length buf);
          s = (if start < 0 then max (n + start) 0 else min start n);
          e = (if end < 0 then max (n + end) 0 else min end n)
      in take (nat (e - s)) (drop (nat s) buf))"

subsection \<open>Base64 as \<open>Buffer\<close> does it\<close>

definition b64_char :: "nat \<Rightarrow> char" where
  "b64_char n =
     (if n < 26 then char_of (65 + n)
      else if n < 52 then char_of (71 + n)
      else if n < 62 then char_of (n - 4)
      else if n = 62 then CHR ''+'' else CHR ''/'')"

text \<open>The decoder of \<open>Buffer.from(s, 'base64')\<close> also takes the URL-safe letters.\<close>

definition b64_value :: "char \<Rightarrow> nat option" where
  "b64_value c =
     (let k = (of_char c :: nat) in
      if 65 \<le> k \<and> k \<le> 90 then Some (k - 65)
      else if 97 \<le> k \<and> k \<le> 122 then Some (k - 71)
      else if 48 \<le> k \<and> k \<le> 57 then Some (k + 4)
      else if k = 43 \<or> k = 45 then Some 62
      else if k = 47 \<or> k = 95 then Some 63
      else None)"

text \<open>\<open>buf.toString('base64')\<close>.\<close>

fun toString_base64 :: "bytes \<Rightarrow> string" where
  "toString_base64 (a # b # c # r) =
     [b64_char (unat a div 4),
      b64_char ((unat a mod 4) * 16 + unat b div 16),
      b64_char ((unat b mod 16) * 4 + unat c div 64),
      b64_char (unat c mod 64)] @ toString_base64 r"
| "toString_base64 [a, b] =
     [b64_char (unat a div 4),
      b64_char ((unat a mod 4) * 16 + unat b div 16),
      b64_char ((unat b mod 16) * 4),
      CHR ''='']"
| "toString_base64 [a] =
     [b64_char (unat a div 4),
      b64_char ((unat a mod 4) * 16),
      CHR ''='', CHR ''='']"
| "toString_base64 [] = []"

fun b64_groups :: "nat list \<Rightarrow> bytes" where
  "b64_groups (s1 # s2 # s3 # s4 # r) =
     [of_nat (s1 * 4 + s2 div 16), of_nat ((s2 mod 16) * 16 + s3 div 4),
      of_nat ((s3 mod 4) * 64 + s4)] @ b64_groups r"
| "b64_groups [s1, s2, s3] =
     [of_nat (s1 * 4 + s2 div 16), of_nat ((s2 mod 16) * 16 + s3 div 4)]"
| "b64_groups [s1, s2] = [of_nat (s1 * 4 + s2 div 16)]"
| "b64_groups _ = []"

text \<open>\<open>Buffer.from(s, 'base64')\<close>: decoding stops at the first \<open>=\<close>, characters outside the
  alphabet are skipped, and a trailing group of one sextet gives no byte.\<close>

definition from_base64 :: "string \<Rightarrow> bytes" where
  "from_base64 s =
     b64_groups (List.map_filter b64_value (takeWhile (\<lambda>c. c \<noteq> CHR ''='') s))"

text \<open>\<open>s.replaceAll(c, d)\<close> for one-character patterns.\<close>

definition replaceAll :: "char \<Rightarrow> char \<Rightarrow> string \<Rightarrow> string" where
  "replaceAll c d s = map (\<lambda>x. if x = c then d else x) s"

subsection \<open>\<open>nintendoBase64Decode\<close> and \<open>nintendoBase64Encode\<close>\<close>

definition nintendoBase64Decode :: "string \<Rightarrow> bytes" where
  "nintendoBase64Decode encoded =
     from_base64 (replaceAll (CHR ''*'') (CHR ''='')
       (replaceAll (CHR ''-'') (CHR ''/'') (replaceAll (CHR ''.'') (CHR ''+'') encoded)))"

definition nintendoBase64Encode :: "bytes \<Rightarrow> string" where
  "nintendoBase64Encode decoded =
     replaceAll (CHR ''='') (CHR ''*'')
       (replaceAll (CHR ''/'') (CHR ''-'')
         (replaceAll (CHR ''+'') (CHR ''.'') (toString_base64 decoded)))"

section \<open>The cryptographic library\<close>

text \<open>
  The source calls \<open>node:crypto\<close> and \<open>node-rsa\<close>.  The AES block permutation, RSA-OAEP,
  HMAC-SHA1 and SHA-256 are parameters of the model, collected in \<open>crypto_lib\<close>; the CBC
  mode and the block padding that \<open>createCipheriv('aes-128-cbc', ...)\<close> adds around the block
  permutation are written out.
\<close>

record crypto_lib =
  aes_block_encrypt :: "bytes \<Rightarrow> bytes \<Rightarrow> bytes"
  aes_block_decrypt :: "bytes \<Rightarrow> bytes \<Rightarrow> bytes"
  public_pem_ok :: "bytes \<Rightarrow> bool"
  private_pem_ok :: "bytes \<Rightarrow> bool"
  rsa_encrypt :: "bytes \<Rightarrow> bytes \<Rightarrow> bytes \<Rightarrow> error + bytes"
  rsa_decrypt :: "bytes \<Rightarrow> bytes \<Rightarrow> error + bytes"
  hmac_sha1 :: "bytes \<Rightarrow> bytes \<Rightarrow> bytes"
  sha256 :: "bytes \<Rightarrow> bytes"

definition xor_bytes :: "bytes \<Rightarrow> bytes \<Rightarrow> bytes" where
  "xor_bytes a b = map (\<lambda>(x, y). x XOR y) (zip a b)"

fun cbc_encrypt :: "(bytes \<Rightarrow> bytes) \<Rightarrow> bytes \<Rightarrow> bytes \<Rightarrow> bytes" where
  "cbc_encrypt E prev pt =
     (if pt = [] then []
      else (let c = E (xor_bytes (take 16 pt) prev) in c @ cbc_encrypt E c (drop 16 pt)))"

fun cbc_decrypt :: "(bytes \<Rightarrow> bytes) \<Rightarrow> bytes \<Rightarrow> bytes \<Rightarrow> bytes" where
  "cbc_decrypt D prev ct =
     (if ct = [] then []
      else xor_bytes (D (take 16 ct)) prev @ cbc_decrypt D (take 16 ct) (drop 16 ct))"

definition pkcs7_pad :: "bytes \<Rightarrow> bytes" where
  "pkcs7_pad pt = (let n = 16 - length pt mod 16 in pt @ replicate n (of_nat n))"

definition pkcs7_unpad :: "bytes \<Rightarrow> error + bytes" where
  "pkcs7_unpad bs =
     (let n = unat (last bs) in
      if n = 0 \<or> 16 < n then Inl ERR_OSSL_BAD_DECRYPT
      else if drop (length bs - n) bs \<noteq> replicate n (last bs) then Inl ERR_OSSL_BAD_DECRYPT
      else Inr (take (length bs - n) bs))"

text \<open>\<open>createCipheriv('aes-128-cbc', key, iv)\<close>, then \<open>update(data)\<close> and \<open>final()\<close>.\<close>

definition aes_128_cbc_encrypt :: "crypto_lib \<Rightarrow> bytes \<Rightarrow> bytes \<Rightarrow> bytes \<Rightarrow> error + bytes" where
  "aes_128_cbc_encrypt lib key iv data =
     (if length iv \<noteq> 16 then Inl ERR_CRYPTO_INVALID_IV
      else if length key \<noteq> 16 then Inl ERR_CRYPTO_INVALID_KEYLEN
      else Inr (cbc_encrypt (aes_block_encrypt lib key) iv (pkcs7_pad data)))"

text \<open>\<open>createDecipheriv('aes-128-cbc', key, iv)\<close>, then \<open>update(data)\<close> and \<open>final()\<close>:
  \<open>final\<close> raises when there is no whole last block and when the padding is not well formed.\<close>

definition aes_128_cbc_decrypt :: "crypto_lib \<Rightarrow> bytes \<Rightarrow> bytes \<Rightarrow> bytes \<Rightarrow> error + bytes" where
  "aes_128_cbc_decrypt lib key iv data =
     (if length iv \<noteq> 16 then Inl ERR_CRYPTO_INVALID_IV
      else if length key \<noteq> 16 then Inl ERR_CRYPTO_INVALID_KEYLEN
      else if data = [] \<or> length data mod 16 \<noteq> 0 then Inl ERR_OSSL_WRONG_FINAL_BLOCK_LENGTH
      else pkcs7_unpad (cbc_decrypt (aes_block_decrypt lib key) iv data))"

subsection \<open>\<open>Math.random()\<close> and the product that picks a point\<close>

text \<open>
  \<open>Math.random()\<close> returns a double in \<open>[0, 1)\<close>.  Every such double is \<open>m / 2 ^ k\<close> with
  \<open>m < 2 ^ 53\<close> and \<open>53 \<le> k\<close>, written \<open>UnitDouble m k\<close>.  The product \<open>n * r\<close> of an integer
  and such a double is rounded to 53 significant bits, ties to even, and \<open>~~\<close> truncates
  the rounded product and wraps it to 32 bits.
\<close>

datatype unit_double = UnitDouble nat nat

fun is_unit_double :: "unit_double \<Rightarrow> bool" where
  "is_unit_double (UnitDouble m k) \<longleftrightarrow> m < 2 ^ 53 \<and> 53 \<le> k \<and> k \<le> 1074"

fun excess_bits :: "nat \<Rightarrow> nat" where
  "excess_bits p = (if p < 2 ^ 53 then 0 else Suc (excess_bits (p div 2)))"

definition round_to_53 :: "nat \<Rightarrow> nat" where
  "round_to_53 p =
     (let s = excess_bits p; q = p div 2 ^ s; r = p mod 2 ^ s; half = 2 ^ s div 2 in
      if s = 0 then p
      else if half < r \<or> (r = half \<and> odd q) then (q + 1) * 2 ^ s
      else q * 2 ^ s)"

definition to_int32 :: "int \<Rightarrow> int" where
  "to_int32 x = (x + 2 ^ 31) mod 2 ^ 32 - 2 ^ 31"

fun mul_to_int32 :: "int \<Rightarrow> unit_double \<Rightarrow> int" where
  "mul_to_int32 n (UnitDouble m k) =
     to_int32 (sgn n * int (round_to_53 (nat \<bar>n\<bar> * m) div 2 ^ k))"

section \<open>Tokens\<close>

text \<open>
  \<open>TokenOptions\<close> and \<open>Token\<close> have the same fields; \<open>access_level\<close> and \<open>title_id\<close> are
  optional in both.  \<open>CryptoOptions\<close> is what the caller of \<open>generateToken\<close> passes;
  \<open>service_keys\<close> is what \<open>getServiceAESKey\<close>, \<open>getServicePrivateKey\<close> and
  \<open>getServiceSecretKey\<close> return for the service \<open>account\<close>; \<open>entropy\<close> is what
  \<open>crypto.randomBytes(16)\<close>, the OAEP padding and the two calls of \<open>Math.random()\<close> draw.
\<close>

record Token =
  system_type :: int
  token_type :: int
  pid :: int
  access_level :: "int option"
  title_id :: "int option"
  expire_time :: int

record CryptoOptions =
  public_key :: bytes
  hmac_secret :: bytes

record service_keys =
  aes_key :: bytes
  private_key :: bytes
  secret_key :: bytes

record entropy =
  random_key :: bytes
  oaep_seed :: bytes
  random1 :: unit_double
  random2 :: unit_double

text \<open>\<open>!x\<close> on an optional number or bigint: true when it is missing and when it is zero.\<close>

definition falsy :: "int option \<Rightarrow> bool" where
  "falsy v \<longleftrightarrow> v = None \<or> v = Some 0"

text \<open>The writes into the data buffer.  The long buffer takes the access level and the
  title as numbers: \<open>generateToken\<close> writes them only behind its test of the two optional
  fields.\<close>

definition short_data :: "Token \<Rightarrow> error + bytes" where
  "short_data t =
     and_then (writeUInt8 (replicate 14 0) (system_type t) 0) (\<lambda>b.
     and_then (writeUInt8 b (token_type t) 1) (\<lambda>b.
     and_then (writeUInt32LE b (pid t) 2) (\<lambda>b.
     writeBigUInt64LE b (expire_time t) 6)))"

definition long_data :: "Token \<Rightarrow> int \<Rightarrow> int \<Rightarrow> error + bytes" where
  "long_data t al ti =
     and_then (writeUInt8 (replicate 23 0) (system_type t) 0) (\<lambda>b.
     and_then (writeUInt8 b (token_type t) 1) (\<lambda>b.
     and_then (writeUInt32LE b (pid t) 2) (\<lambda>b.
     and_then (writeUInt8 b al 6) (\<lambda>b.
     and_then (writeBigUInt64LE b ti 7) (\<lambda>b.
     writeBigUInt64LE b (expire_time t) 15)))))"

definition derive_iv :: "bytes \<Rightarrow> int \<Rightarrow> int \<Rightarrow> bytes" where
  "derive_iv encryptedKey point1 point2 =
     subarray encryptedKey point1 (point1 + 8) @ subarray encryptedKey point2 (point2 + 8)"

definition generateToken ::
  "crypto_lib \<Rightarrow> service_keys \<Rightarrow> entropy \<Rightarrow> CryptoOptions option \<Rightarrow> Token \<Rightarrow> error + string option" where
  "generateToken lib keys rnd cryptoOptions tokenOptions =
     (case cryptoOptions of
        None \<Rightarrow>
          and_then (short_data tokenOptions) (\<lambda>dataBuffer.
          and_then (aes_128_cbc_encrypt lib (aes_key keys) (replicate 16 0) dataBuffer)
            (\<lambda>encryptedBody. Inr (Some (toString_base64 encryptedBody))))
      | Some co \<Rightarrow>
          if falsy (access_level tokenOptions) \<or> falsy (title_id tokenOptions) then Inr None
          else if \<not> public_pem_ok lib (public_key co) then Inl RSA_KEY_ERROR
          else
            and_then (long_data tokenOptions (the (access_level tokenOptions))
                        (the (title_id tokenOptions))) (\<lambda>dataBuffer.
            let signature = hmac_sha1 lib (hmac_secret co) dataBuffer;
                key = random_key rnd
            in
            and_then (rsa_encrypt lib (public_key co) (oaep_seed rnd) key) (\<lambda>encryptedKey.
            let point1 = mul_to_int32 (int (length encryptedKey) - 8) (random1 rnd);
                point2 = mul_to_int32 (int (length encryptedKey) - 8) (random2 rnd);
                iv = derive_iv encryptedKey point1 point2
            in
            and_then (aes_128_cbc_encrypt lib key iv dataBuffer) (\<lambda>encryptedBody.
            let cryptoConfig = encryptedKey @ [word_of_int point1, word_of_int point2];
                token = cryptoConfig @ signature @ encryptedBody
            in Inr (Some (toString_base64 token))))))"

text \<open>The length test that selects the short format.\<close>

definition is_short_format :: "bytes \<Rightarrow> bool" where
  "is_short_format token \<longleftrightarrow> length token \<le> 32"

text \<open>The initialisation vector as \<open>decryptToken\<close> rebuilds it from the token.\<close>

definition token_iv :: "bytes \<Rightarrow> error + bytes" where
  "token_iv token =
     (let cryptoConfig = subarray token 0 0x82;
          encryptedAESKey = subarray cryptoConfig 0 128
      in
      and_then (readInt8 cryptoConfig 0x80) (\<lambda>point1.
      and_then (readInt8 cryptoConfig 0x81) (\<lambda>point2.
      Inr (derive_iv encryptedAESKey point1 point2))))"

definition decryptToken :: "crypto_lib \<Rightarrow> service_keys \<Rightarrow> bytes \<Rightarrow> error + bytes" where
  "decryptToken lib keys token =
     (if is_short_format token then
        aes_128_cbc_decrypt lib (aes_key keys) (replicate 16 0) token
      else if \<not> private_pem_ok lib (private_key keys) then Inl RSA_KEY_ERROR
      else
        let cryptoConfig = subarray token 0 0x82;
            signature = subarray token 0x82 0x96;
            encryptedBody = subarray token 0x96 (int (length token));
            encryptedAESKey = subarray cryptoConfig 0 128
        in
        and_then (token_iv token) (\<lambda>iv.
        and_then (rsa_decrypt lib (private_key keys) encryptedAESKey) (\<lambda>decryptedAESKey.
        and_then (aes_128_cbc_decrypt lib decryptedAESKey iv encryptedBody) (\<lambda>decryptedBody.
        let calculatedSignature = hmac_sha1 lib (secret_key keys) decryptedBody in
        if signature \<noteq> calculatedSignature then Inr [] else Inr decryptedBody))))"

definition unpackToken :: "bytes \<Rightarrow> error + Token" where
  "unpackToken token =
     (if length token \<le> 14 then
        and_then (readUInt8 token 0) (\<lambda>st.
        and_then (readUInt8 token 1) (\<lambda>tt.
        and_then (readUInt32LE token 2) (\<lambda>p.
        and_then (readBigUInt64LE token 6) (\<lambda>ex.
        Inr \<lparr>system_type = st, token_type = tt, pid = p,
             access_level = None, title_id = None, expire_time = ex\<rparr>))))
      else
        and_then (readUInt8 token 0) (\<lambda>st.
        and_then (readUInt8 token 1) (\<lambda>tt.
        and_then (readUInt32LE token 2) (\<lambda>p.
        and_then (readUInt8 token 6) (\<lambda>al.
        and_then (readBigUInt64LE token 7) (\<lambda>ti.
        and_then (readBigUInt64LE token 15) (\<lambda>ex.
        Inr \<lparr>system_type = st, token_type = tt, pid = p,
             access_level = Some al, title_id = Some ti, expire_time = ex\<rparr>)))))))"

text \<open>The decode pipeline of a wire token: base64, \<open>decryptToken\<close>, \<open>unpackToken\<close>.\<close>

definition decode_bytes :: "crypto_lib \<Rightarrow> service_keys \<Rightarrow> bytes \<Rightarrow> error + Token" where
  "decode_bytes lib keys token = and_then (decryptToken lib keys token) unpackToken"

definition decode :: "crypto_lib \<Rightarrow> service_keys \<Rightarrow> string \<Rightarrow> error + Token" where
  "decode lib keys wire = decode_bytes lib keys (from_base64 wire)"

section \<open>\<open>nintendoPasswordHash\<close>\<close>

text \<open>A JavaScript string is a list of UTF-16 code units; \<open>Buffer.from(s)\<close> encodes it in
  UTF-8, a surrogate without its partner becoming U+FFFD.\<close>

type_synonym js_string = "16 word list"

definition utf8_of_code_point :: "nat \<Rightarrow> bytes" where
  "utf8_of_code_point c =
     (if c < 0x80 then [of_nat c]
      else if c < 0x800 then [of_nat (0xC0 + c div 64), of_nat (0x80 + c mod 64)]
      else if c < 0x10000 then
        [of_nat (0xE0 + c div 4096), of_nat (0x80 + (c div 64) mod 64), of_nat (0x80 + c mod 64)]
      else
        [of_nat (0xF0 + c div 262144), of_nat (0x80 + (c div 4096) mod 64),
         of_nat (0x80 + (c div 64) mod 64), of_nat (0x80 + c mod 64)])"

definition is_high_surrogate :: "16 word \<Rightarrow> bool" where
  "is_high_surrogate u \<longleftrightarrow> 0xD800 \<le> unat u \<and> unat u < 0xDC00"

definition is_low_surrogate :: "16 word \<Rightarrow> bool" where
  "is_low_surrogate u \<longleftrightarrow> 0xDC00 \<le> unat u \<and> unat u < 0xE000"

fun utf8_encode :: "js_string \<Rightarrow> bytes" where
  "utf8_encode [] = []"
| "utf8_encode [u] =
     (if is_high_surrogate u \<or> is_low_surrogate u then [0xEF, 0xBF, 0xBD]
      else utf8_of_code_point (unat u))"
| "utf8_encode (u # v # r) =
     (if is_high_surrogate u \<and> is_low_surrogate v then
        utf8_of_code_point (0x10000 + (unat u - 0xD800) * 1024 + (unat v - 0xDC00))
          @ utf8_encode r
      else if is_high_surrogate u \<or> is_low_surrogate u then
        [0xEF, 0xBF, 0xBD] @ utf8_encode (v # r)
      else utf8_of_code_point (unat u) @ utf8_encode (v # r))"

definition hex_digit :: "nat \<Rightarrow> char" where
  "hex_digit n = (if n < 10 then char_of (48 + n) else char_of (87 + n))"

text \<open>\<open>buf.toString('hex')\<close>.\<close>

definition toString_hex :: "bytes \<Rightarrow> string" where
  "toString_hex bs = concat (map (\<lambda>b. [hex_digit (unat b div 16), hex_digit (unat b mod 16)]) bs)"

definition nintendoPasswordHash :: "crypto_lib \<Rightarrow> js_string \<Rightarrow> int \<Rightarrow> error + string" where
  "nintendoPasswordHash lib password p =
     and_then (writeUInt32LE (replicate 4 0) p 0) (\<lambda>pidBuffer.
     let unpacked = pidBuffer @ utf8_encode [0x02, 0x65, 0x43, 0x46] @ utf8_encode password
     in Inr (toString_hex (sha256 lib unpacked)))"

text \<open>The hash as the specification words it: the pid as four little-endian bytes, the
  four-byte marker, the UTF-8 bytes of the password, SHA-256, lowercase hex.\<close>

definition spec_password_hash :: "crypto_lib \<Rightarrow> js_string \<Rightarrow> int \<Rightarrow> string" where
  "spec_password_hash lib password p =
     toString_hex (sha256 lib (le_bytes 4 p @ [0x02, 0x65, 0x43, 0x46] @ utf8_encode password))"


section \<open>What the claims assume of the library, the keys and the fields\<close>

text \<open>AES-128 is a keyed permutation of 16-byte blocks.\<close>

definition block_cipher_ok :: "crypto_lib \<Rightarrow> bool" where
  "block_cipher_ok lib \<longleftrightarrow>
     (\<forall>k b. length k = 16 \<and> length b = 16 \<longrightarrow>
        length (aes_block_encrypt lib k b) = 16 \<and>
        length (aes_block_decrypt lib k b) = 16 \<and>
        aes_block_decrypt lib k (aes_block_encrypt lib k b) = b \<and>
        aes_block_encrypt lib k (aes_block_decrypt lib k b) = b)"

text \<open>A valid RSA key pair with a 1024-bit modulus: both PEM texts parse, a 16-byte message
  encrypts to 128 bytes whatever the OAEP seed, and the private key recovers the message.\<close>

definition rsa_1024_pair :: "crypto_lib \<Rightarrow> bytes \<Rightarrow> bytes \<Rightarrow> bool" where
  "rsa_1024_pair lib pub priv \<longleftrightarrow>
     public_pem_ok lib pub \<and> private_pem_ok lib priv \<and>
     (\<forall>seed m. length m = 16 \<longrightarrow>
        (\<exists>c. rsa_encrypt lib pub seed m = Inr c \<and> length c = 128 \<and>
             rsa_decrypt lib priv c = Inr m))"

text \<open>An HMAC-SHA1 digest has 20 bytes.\<close>

definition hmac_sha1_ok :: "crypto_lib \<Rightarrow> bool" where
  "hmac_sha1_ok lib \<longleftrightarrow> (\<forall>k m. length (hmac_sha1 lib k m) = 20)"

text \<open>\<open>crypto.randomBytes(16)\<close> gives 16 bytes and \<open>Math.random()\<close> a double in \<open>[0, 1)\<close>.\<close>

definition entropy_ok :: "entropy \<Rightarrow> bool" where
  "entropy_ok rnd \<longleftrightarrow>
     length (random_key rnd) = 16 \<and> is_unit_double (random1 rnd) \<and> is_unit_double (random2 rnd)"

definition common_fields_ok :: "Token \<Rightarrow> bool" where
  "common_fields_ok t \<longleftrightarrow>
     0 \<le> system_type t \<and> system_type t < 256 \<and> 0 \<le> token_type t \<and> token_type t < 256 \<and>
     0 \<le> pid t \<and> pid t < 2 ^ 32 \<and> 0 \<le> expire_time t \<and> expire_time t < 2 ^ 64"

definition short_fields_ok :: "Token \<Rightarrow> bool" where
  "short_fields_ok t \<longleftrightarrow> common_fields_ok t \<and> access_level t = None \<and> title_id t = None"

definition long_fields_ok :: "Token \<Rightarrow> bool" where
  "long_fields_ok t \<longleftrightarrow>
     common_fields_ok t \<and>
     (case access_level t of None \<Rightarrow> False | Some al \<Rightarrow> 0 \<le> al \<and> al < 256) \<and>
     (case title_id t of None \<Rightarrow> False | Some ti \<Rightarrow> 0 \<le> ti \<and> ti < 2 ^ 64)"

text \<open>One bit of one byte of a buffer flipped.\<close>

definition flip_bit :: "bytes \<Rightarrow> nat \<Rightarrow> nat \<Rightarrow> bytes" where
  "flip_bit buf i j = buf[i := (buf ! i) XOR (push_bit j 1)]"

section \<open>The layouts as the specification words them\<close>

text \<open>The Nintendo alphabet: the encoder is standard base64 with \<open>+\<close> written \<open>.\<close>, \<open>/\<close>
  written \<open>-\<close> and \<open>=\<close> written \<open>*\<close>; the decoder puts the three characters back and decodes
  standard base64.\<close>

definition spec_encode_char :: "char \<Rightarrow> char" where
  "spec_encode_char c =
     (if c = CHR ''+'' then CHR ''.''
      else if c = CHR ''/'' then CHR ''-''
      else if c = CHR ''='' then CHR ''*'' else c)"

definition spec_decode_char :: "char \<Rightarrow> char" where
  "spec_decode_char c =
     (if c = CHR ''.'' then CHR ''+''
      else if c = CHR ''-'' then CHR ''/''
      else if c = CHR ''*'' then CHR ''='' else c)"

definition spec_nintendo_encode :: "bytes \<Rightarrow> string" where
  "spec_nintendo_encode b = map spec_encode_char (toString_base64 b)"

definition spec_nintendo_decode :: "string \<Rightarrow> bytes" where
  "spec_nintendo_decode s = from_base64 (map spec_decode_char s)"

text \<open>The 14-byte short plaintext: \<open>system_type\<close> at byte 0, \<open>token_type\<close> at byte 1, \<open>pid\<close>
  as four little-endian bytes at byte 2 and \<open>expire_time\<close> as eight at byte 6.\<close>

definition spec_short_plaintext :: "Token \<Rightarrow> bytes" where
  "spec_short_plaintext t =
     [word_of_int (system_type t), word_of_int (token_type t)]
       @ le_bytes 4 (pid t) @ le_bytes 8 (expire_time t)"

text \<open>The 23-byte long plaintext of a field set that has both optional fields:
  \<open>access_level\<close> at byte 6 and \<open>title_id\<close> as eight little-endian bytes at byte 7 come
  between \<open>pid\<close> and \<open>expire_time\<close>, which moves to byte 15.\<close>

definition spec_long_plaintext :: "Token \<Rightarrow> bytes" where
  "spec_long_plaintext t =
     [word_of_int (system_type t), word_of_int (token_type t)]
       @ le_bytes 4 (pid t) @ [word_of_int (the (access_level t))]
       @ le_bytes 8 (the (title_id t)) @ le_bytes 8 (expire_time t)"

section \<open>A small library and inputs for the concrete instances\<close>

text \<open>
  The instances below run the model on a library whose block permutation adds the key to
  the block bytewise, whose RSA pads the message to 128 bytes, and whose digests are
  checksums.  It satisfies what the claims assume of the library.
\<close>

definition toy_lib :: crypto_lib where
  "toy_lib =
     \<lparr>aes_block_encrypt = (\<lambda>k b. xor_bytes b k),
      aes_block_decrypt = (\<lambda>k b. xor_bytes b k),
      public_pem_ok = (\<lambda>pem. True),
      private_pem_ok = (\<lambda>pem. True),
      rsa_encrypt = (\<lambda>pub seed m. Inr (m @ replicate (128 - length m) 0x5A)),
      rsa_decrypt = (\<lambda>priv c. if length c = 128 then Inr (take 16 c) else Inl RSA_DECRYPT_ERROR),
      hmac_sha1 = (\<lambda>k m. replicate 20 (sum_list k + sum_list m + of_nat (length m))),
      sha256 = (\<lambda>m. replicate 32 (sum_list m))\<rparr>"

definition toy_keys :: service_keys where
  "toy_keys = \<lparr>aes_key = replicate 16 0, private_key = [], secret_key = [1, 2, 3]\<rparr>"

definition toy_options :: CryptoOptions where
  "toy_options = \<lparr>public_key = [], hmac_secret = [1, 2, 3]\<rparr>"

definition other_secret_options :: CryptoOptions where
  "other_secret_options = \<lparr>public_key = [], hmac_secret = [9, 9, 9]\<rparr>"

definition toy_entropy :: entropy where
  "toy_entropy =
     \<lparr>random_key = replicate 16 7, oaep_seed = [],
      random1 = UnitDouble 0 53, random2 = UnitDouble (2 ^ 52) 53\<rparr>"

text \<open>The short token of the specification's scenario.\<close>

definition reset_token_short :: Token where
  "reset_token_short =
     \<lparr>system_type = 0xF, token_type = 0x5, pid = 100000,
      access_level = None, title_id = None, expire_time = 1700000000000\<rparr>"

text \<open>A long token with non-zero access level and title.\<close>

definition sample_token_long :: Token where
  "sample_token_long =
     \<lparr>system_type = 0x1, token_type = 0x3, pid = 100000,
      access_level = Some 1, title_id = Some 0x0005000010100000, expire_time = 1700000000000\<rparr>"

text \<open>The token that \<open>sendForgotPasswordEmail\<close> builds for an account of access level 0.\<close>

definition reset_token_long :: Token where
  "reset_token_long =
     \<lparr>system_type = 0xF, token_type = 0x5, pid = 100000,
      access_level = Some 0, title_id = Some 0, expire_time = 1700000000000\<rparr>"

text \<open>A long token in range whose access level is 0, the level of an ordinary account.\<close>

definition zero_level_token_long :: Token where
  "zero_level_token_long =
     \<lparr>system_type = 0x1, token_type = 0x3, pid = 100000,
      access_level = Some 0, title_id = Some 0x0005000010100000, expire_time = 1700000000000\<rparr>"

text \<open>The RSA ciphertext of the key of \<open>toy_entropy\<close>, and three long buffers built on it
  with the points 0 and 60 that \<open>toy_entropy\<close> gives: the token of \<open>sample_token_long\<close> as
  \<open>generateToken\<close> makes it under \<open>toy_options\<close>, and as it makes it under
  \<open>other_secret_options\<close>, whose HMAC secret is not the secret of the service.\<close>

definition toy_encrypted_key :: bytes where
  "toy_encrypted_key = replicate 16 7 @ replicate 112 0x5A"

definition sample_long_bytes :: bytes where
  "sample_long_bytes =
     toy_encrypted_key @ [0, 60]
       @ hmac_sha1 toy_lib [1, 2, 3] (spec_long_plaintext sample_token_long)
       @ cbc_encrypt (aes_block_encrypt toy_lib (replicate 16 7))
           (derive_iv toy_encrypted_key 0 60) (pkcs7_pad (spec_long_plaintext sample_token_long))"

definition forged_long_bytes :: bytes where
  "forged_long_bytes =
     toy_encrypted_key @ [0, 60]
       @ hmac_sha1 toy_lib [9, 9, 9] (spec_long_plaintext sample_token_long)
       @ cbc_encrypt (aes_block_encrypt toy_lib (replicate 16 7))
           (derive_iv toy_encrypted_key 0 60) (pkcs7_pad (spec_long_plaintext sample_token_long))"

text \<open>The fields that \<open>unpackToken\<close> reads from a body, in the two formats.\<close>

definition short_fields_of :: "bytes \<Rightarrow> Token" where
  "short_fields_of body =
     \<lparr>system_type = uint (body ! 0), token_type = uint (body ! 1),
      pid = le_value (take 4 (drop 2 body)),
      access_level = None, title_id = None,
      expire_time = le_value (take 8 (drop 6 body))\<rparr>"

definition long_fields_of :: "bytes \<Rightarrow> Token" where
  "long_fields_of body =
     \<lparr>system_type = uint (body ! 0), token_type = uint (body ! 1),
      pid = le_value (take 4 (drop 2 body)),
      access_level = Some (uint (body ! 6)),
      title_id = Some (le_value (take 8 (drop 7 body))),
      expire_time = le_value (take 8 (drop 15 body))\<rparr>"

definition b64_out_char :: "char \<Rightarrow> bool" where
  "b64_out_char c \<longleftrightarrow> c = CHR ''='' \<or> (\<exists>n<64. c = b64_char n)"

section \<open>Base64 and the Nintendo alphabet\<close>

lemma unat_byte_lt: "unat (a::byte) < 256"
  using unsigned_less[of a, where 'a=nat] by simp

lemma of_char_b64_char:
  "n < 64 \<Longrightarrow> (of_char (b64_char n) :: nat) =
     (if n < 26 then 65 + n else if n < 52 then 71 + n else if n < 62 then n - 4
      else if n = 62 then 43 else 47)"
  by (simp add: b64_char_def)

lemma b64_value_char: "n < 64 \<Longrightarrow> b64_value (b64_char n) = Some n"
  by (auto simp: b64_value_def of_char_b64_char Let_def)

lemma b64_char_not_pad: "n < 64 \<Longrightarrow> b64_char n \<noteq> CHR ''=''"
proof
  assume "n < 64" and "b64_char n = CHR ''=''"
  then have "(of_char (b64_char n) :: nat) = 61" by simp
  with \<open>n < 64\<close> show False by (simp add: of_char_b64_char split: if_splits)
qed

lemma sextet_bounds:
  "unat (a::byte) div 4 < 64"
  "(unat a mod 4) * 16 + unat (b::byte) div 16 < 64"
  "(unat b mod 16) * 4 + unat (c::byte) div 64 < 64"
  "unat c mod 64 < 64"
  "(unat a mod 4) * 16 < 64"
  "(unat b mod 16) * 4 < 64"
  using unat_byte_lt[of a] unat_byte_lt[of b] unat_byte_lt[of c] by simp_all

lemma b64_groups_full:
  "b64_groups (unat (a::byte) div 4 # ((unat a mod 4) * 16 + unat (b::byte) div 16) #
               ((unat b mod 16) * 4 + unat (c::byte) div 64) # (unat c mod 64) # r)
   = a # b # c # b64_groups r"
proof -
  have a: "unat a div 4 * 4 + ((unat a mod 4) * 16 + unat b div 16) div 16 = unat a"
    using unat_byte_lt[of b] by simp
  have b: "(((unat a mod 4) * 16 + unat b div 16) mod 16) * 16 + ((unat b mod 16) * 4 + unat c div 64) div 4 = unat b"
    using unat_byte_lt[of b] unat_byte_lt[of c] by simp
  have c: "(((unat b mod 16) * 4 + unat c div 64) mod 4) * 64 + unat c mod 64 = unat c"
    using unat_byte_lt[of c] by simp
  show ?thesis
    unfolding b64_groups.simps a b c by simp
qed

lemma b64_groups_two:
  "b64_groups [unat (a::byte) div 4, (unat a mod 4) * 16 + unat (b::byte) div 16,
               (unat b mod 16) * 4] = [a, b]"
proof -
  have a: "unat a div 4 * 4 + ((unat a mod 4) * 16 + unat b div 16) div 16 = unat a"
    using unat_byte_lt[of b] by simp
  have b: "(((unat a mod 4) * 16 + unat b div 16) mod 16) * 16 + ((unat b mod 16) * 4) div 4 = unat b"
    using unat_byte_lt[of b] by simp
  show ?thesis
    unfolding b64_groups.simps a b by simp
qed

lemma b64_groups_one:
  "b64_groups [unat (a::byte) div 4, (unat a mod 4) * 16] = [a]"
proof -
  have a: "unat a div 4 * 4 + ((unat a mod 4) * 16) div 16 = unat a" by simp
  show ?thesis
    unfolding b64_groups.simps a by simp
qed

lemma from_base64_toString: "from_base64 (toString_base64 b) = b"
proof (induction b rule: toString_base64.induct)
  case (1 a b c r)
  then show ?case
    unfolding from_base64_def
    by (simp add: b64_char_not_pad sextet_bounds b64_value_char List.map_filter_simps
        b64_groups_full del: b64_groups.simps)
next
  case (2 a b)
  then show ?case
    unfolding from_base64_def
    by (simp add: b64_char_not_pad sextet_bounds b64_value_char List.map_filter_simps
        b64_groups_two del: b64_groups.simps)
next
  case (3 a)
  then show ?case
    unfolding from_base64_def
    by (simp add: b64_char_not_pad sextet_bounds b64_value_char List.map_filter_simps
        b64_groups_one del: b64_groups.simps)
next
  case 4
  then show ?case by (simp add: from_base64_def List.map_filter_simps)
qed

lemma b64_out_char_sextet: "n < 64 \<Longrightarrow> b64_out_char (b64_char n)"
  by (auto simp: b64_out_char_def)

lemma b64_out_char_pad: "b64_out_char (CHR ''='')"
  by (simp add: b64_out_char_def)

lemma toString_base64_list_all: "list_all b64_out_char (toString_base64 b)"
  by (induction b rule: toString_base64.induct)
     (simp_all add: b64_out_char_sextet b64_out_char_pad sextet_bounds)

lemma toString_base64_chars: "x \<in> set (toString_base64 b) \<Longrightarrow> b64_out_char x"
  using toString_base64_list_all[of b] by (simp add: list_all_iff)

lemma b64_char_not_subst:
  assumes "n < 64"
  shows "b64_char n \<noteq> CHR ''.'' \<and> b64_char n \<noteq> CHR ''-'' \<and> b64_char n \<noteq> CHR ''*''"
proof -
  have "(of_char (b64_char n) :: nat) \<noteq> 46 \<and> (of_char (b64_char n) :: nat) \<noteq> 45
        \<and> (of_char (b64_char n) :: nat) \<noteq> 42"
    using assms by (auto simp: of_char_b64_char)
  then show ?thesis by auto
qed

lemma subst_inverse:
  assumes "b64_out_char c"
  shows "(\<lambda>x. if x = CHR ''*'' then CHR ''='' else x)
          ((\<lambda>x. if x = CHR ''-'' then CHR ''/'' else x)
           ((\<lambda>x. if x = CHR ''.'' then CHR ''+'' else x)
            ((\<lambda>x. if x = CHR ''='' then CHR ''*'' else x)
             ((\<lambda>x. if x = CHR ''/'' then CHR ''-'' else x)
              ((\<lambda>x. if x = CHR ''+'' then CHR ''.'' else x) c))))) = c"
proof -
  from assms consider "c = CHR ''=''" | n where "n < 64" "c = b64_char n"
    by (auto simp: b64_out_char_def)
  then show ?thesis
  proof cases
    case 1
    then show ?thesis by simp
  next
    case 2
    then show ?thesis using b64_char_not_subst[of n] b64_char_not_pad[of n] by auto
  qed
qed


lemma nintendoBase64Encode_spec: "nintendoBase64Encode b = spec_nintendo_encode b"
  unfolding nintendoBase64Encode_def spec_nintendo_encode_def replaceAll_def map_map
  by (rule map_cong[OF refl]) (simp add: spec_encode_char_def)

lemma nintendoBase64Decode_spec: "nintendoBase64Decode s = spec_nintendo_decode s"
  unfolding nintendoBase64Decode_def spec_nintendo_decode_def replaceAll_def map_map
  by (rule arg_cong[where f = from_base64], rule map_cong[OF refl])
     (simp add: spec_decode_char_def)

lemma spec_encode_char_range:
  "spec_encode_char c \<noteq> CHR ''+'' \<and> spec_encode_char c \<noteq> CHR ''/'' \<and>
   spec_encode_char c \<noteq> CHR ''=''"
  by (simp add: spec_encode_char_def)

lemma nintendoBase64Encode_alphabet:
  "CHR ''+'' \<notin> set (nintendoBase64Encode b)" "CHR ''/'' \<notin> set (nintendoBase64Encode b)"
  "CHR ''='' \<notin> set (nintendoBase64Encode b)"
  unfolding nintendoBase64Encode_spec spec_nintendo_encode_def
  using spec_encode_char_range by (metis imageE list.set_map)+

lemma nintendoBase64_decode_encode: "nintendoBase64Decode (nintendoBase64Encode b) = b"
proof -
  have "replaceAll (CHR ''*'') (CHR ''='')
       (replaceAll (CHR ''-'') (CHR ''/'') (replaceAll (CHR ''.'') (CHR ''+'')
         (nintendoBase64Encode b))) = toString_base64 b"
    unfolding nintendoBase64Encode_def replaceAll_def map_map
  proof (rule map_idI)
    fix x assume "x \<in> set (toString_base64 b)"
    then have "b64_out_char x" by (rule toString_base64_chars)
    from subst_inverse[OF this] show "((\<lambda>x. if x = CHR ''*'' then CHR ''='' else x) \<circ>
          ((\<lambda>x. if x = CHR ''-'' then CHR ''/'' else x) \<circ>
           ((\<lambda>x. if x = CHR ''.'' then CHR ''+'' else x) \<circ>
            ((\<lambda>x. if x = CHR ''='' then CHR ''*'' else x) \<circ>
             ((\<lambda>x. if x = CHR ''/'' then CHR ''-'' else x) \<circ>
              (\<lambda>x. if x = CHR ''+'' then CHR ''.'' else x)))))) x = x"
      by (simp only: o_apply)
  qed
  then show ?thesis by (simp add: nintendoBase64Decode_def from_base64_toString)
qed

lemma char_of_119: "char_of (119::nat) = CHR ''w''"
proof -
  have "(of_char (char_of (119::nat)) :: nat) = of_char CHR ''w''" by simp
  then show ?thesis by (simp only: of_char_eq_iff)
qed

lemma nintendo_instances:
  "nintendoBase64Encode [0xFB, 0xEF, 0xBE, 0xFF, 0xFF, 0xFF] = ''....----''"
  "nintendoBase64Encode [0xFF] = ''-w**''"
  "nintendoBase64Decode ''-w**'' = [0xFF]"
  "nintendoBase64Encode [] = []"
  by (simp_all add: nintendoBase64Encode_def nintendoBase64Decode_def replaceAll_def
      b64_char_def char_of_119 from_base64_def b64_value_def List.map_filter_simps)

text \<open>
  Claim C8.  For every byte sequence \<open>b\<close> (the empty one and the all-\<open>0xFF\<close> ones included),
  \<open>nintendoBase64Decode (nintendoBase64Encode b) = b\<close>; the encoder is standard base64
  followed by the substitutions \<open>+\<close> to \<open>.\<close>, \<open>/\<close> to \<open>-\<close>, \<open>=\<close> to \<open>*\<close>, so that its output
  holds none of \<open>+\<close>, \<open>/\<close>, \<open>=\<close>, and the decoder applies the inverse substitutions before
  standard base64 decoding.
\<close>

theorem nintendoBase64_round_trip:
  "nintendoBase64Decode (nintendoBase64Encode b) = b \<and>
   nintendoBase64Encode b = spec_nintendo_encode b \<and>
   nintendoBase64Decode s = spec_nintendo_decode s \<and>
   CHR ''+'' \<notin> set (nintendoBase64Encode b) \<and>
   CHR ''/'' \<notin> set (nintendoBase64Encode b) \<and>
   CHR ''='' \<notin> set (nintendoBase64Encode b) \<and>
   nintendoBase64Encode [0xFB, 0xEF, 0xBE, 0xFF, 0xFF, 0xFF] = ''....----'' \<and>
   nintendoBase64Encode [0xFF] = ''-w**'' \<and>
   nintendoBase64Decode ''-w**'' = [0xFF] \<and>
   nintendoBase64Encode [] = []"
  using nintendoBase64_decode_encode[of b] nintendoBase64Encode_spec[of b]
    nintendoBase64Decode_spec[of s] nintendoBase64Encode_alphabet[of b] nintendo_instances
  by (intro conjI)

section \<open>Fields in a buffer\<close>

declare cbc_encrypt.simps [simp del]
declare cbc_decrypt.simps [simp del]
declare excess_bits.simps [simp del]

lemma and_then_Inr [simp]: "and_then (Inr x) f = f x"
  by (simp add: and_then_def)

lemma and_then_Inl [simp]: "and_then (Inl e) f = Inl e"
  by (simp add: and_then_def)

lemma length_le_bytes [simp]: "length (le_bytes n v) = n"
  by (induction n arbitrary: v) simp_all

lemma uint_byte_of_int: "uint (word_of_int v :: byte) = v mod 256"
  by (simp add: uint_word_of_int)

lemma le_value_le_bytes: "0 \<le> v \<Longrightarrow> v < 2 ^ (8 * n) \<Longrightarrow> le_value (le_bytes n v) = v"
proof (induction n arbitrary: v)
  case 0
  then show ?case by simp
next
  case (Suc n)
  have "v div 256 < 2 ^ (8 * n)"
  proof -
    have "v < 256 * 2 ^ (8 * n)" using Suc.prems(2) by (simp add: power_add algebra_simps)
    then show ?thesis by arith
  qed
  moreover have "0 \<le> v div 256" using Suc.prems(1) by simp
  ultimately have "le_value (le_bytes n (v div 256)) = v div 256" by (rule Suc.IH[rotated])
  then show ?case by (simp add: uint_byte_of_int)
qed

lemma le_bytes_1: "le_bytes 1 v = [word_of_int v]"
  by (simp add: One_nat_def)

lemma short_data_layout:
  assumes "common_fields_ok t"
  shows "short_data t = Inr ([word_of_int (system_type t), word_of_int (token_type t)]
            @ le_bytes 4 (pid t) @ le_bytes 8 (expire_time t))"
proof -
  have r: "0 \<le> system_type t" "system_type t < 256" "0 \<le> token_type t" "token_type t < 256"
    "0 \<le> pid t" "pid t < 2 ^ 32" "0 \<le> expire_time t" "expire_time t < 2 ^ 64"
    using assms by (simp_all add: common_fields_ok_def)
  have 1: "writeUInt8 (replicate 14 0) (system_type t) 0
      = Inr ([word_of_int (system_type t)] @ replicate 13 0)"
    using r by (simp add: writeUInt8_def write_uint_le_def write_at_def le_bytes_1)
  have 2: "writeUInt8 ([word_of_int (system_type t)] @ replicate 13 0) (token_type t) 1
      = Inr ([word_of_int (system_type t), word_of_int (token_type t)] @ replicate 12 0)"
    using r by (simp add: writeUInt8_def write_uint_le_def write_at_def le_bytes_1)
  have 3: "writeUInt32LE ([word_of_int (system_type t), word_of_int (token_type t)] @ replicate 12 0) (pid t) 2
      = Inr ([word_of_int (system_type t), word_of_int (token_type t)] @ le_bytes 4 (pid t) @ replicate 8 0)"
    using r by (simp add: writeUInt32LE_def write_uint_le_def write_at_def)
  have 4: "writeBigUInt64LE ([word_of_int (system_type t), word_of_int (token_type t)] @ le_bytes 4 (pid t) @ replicate 8 0) (expire_time t) 6
      = Inr ([word_of_int (system_type t), word_of_int (token_type t)] @ le_bytes 4 (pid t) @ le_bytes 8 (expire_time t))"
    using r by (simp add: writeBigUInt64LE_def write_uint_le_def write_at_def)
  show ?thesis
    unfolding short_data_def 1 and_then_Inr 2 3 4 ..
qed

lemma long_data_layout:
  assumes "common_fields_ok t" "0 \<le> al" "al < 256" "0 \<le> ti" "ti < 2 ^ 64"
  shows "long_data t al ti = Inr ([word_of_int (system_type t), word_of_int (token_type t)]
            @ le_bytes 4 (pid t) @ [word_of_int al] @ le_bytes 8 ti @ le_bytes 8 (expire_time t))"
proof -
  have r: "0 \<le> system_type t" "system_type t < 256" "0 \<le> token_type t" "token_type t < 256"
    "0 \<le> pid t" "pid t < 2 ^ 32" "0 \<le> expire_time t" "expire_time t < 2 ^ 64"
    using assms by (simp_all add: common_fields_ok_def)
  have 1: "writeUInt8 (replicate 23 0) (system_type t) 0
      = Inr ([word_of_int (system_type t)] @ replicate 22 0)"
    using r by (simp add: writeUInt8_def write_uint_le_def write_at_def le_bytes_1)
  have 2: "writeUInt8 ([word_of_int (system_type t)] @ replicate 22 0) (token_type t) 1
      = Inr ([word_of_int (system_type t), word_of_int (token_type t)] @ replicate 21 0)"
    using r by (simp add: writeUInt8_def write_uint_le_def write_at_def le_bytes_1)
  have 3: "writeUInt32LE ([word_of_int (system_type t), word_of_int (token_type t)] @ replicate 21 0) (pid t) 2
      = Inr ([word_of_int (system_type t), word_of_int (token_type t)] @ le_bytes 4 (pid t) @ replicate 17 0)"
    using r by (simp add: writeUInt32LE_def write_uint_le_def write_at_def)
  have 4: "writeUInt8 ([word_of_int (system_type t), word_of_int (token_type t)] @ le_bytes 4 (pid t) @ replicate 17 0) al 6
      = Inr ([word_of_int (system_type t), word_of_int (token_type t)] @ le_bytes 4 (pid t) @ [word_of_int al] @ replicate 16 0)"
    using assms by (simp add: writeUInt8_def write_uint_le_def write_at_def le_bytes_1)
  have 5: "writeBigUInt64LE ([word_of_int (system_type t), word_of_int (token_type t)] @ le_bytes 4 (pid t) @ [word_of_int al] @ replicate 16 0) ti 7
      = Inr ([word_of_int (system_type t), word_of_int (token_type t)] @ le_bytes 4 (pid t) @ [word_of_int al] @ le_bytes 8 ti @ replicate 8 0)"
    using assms by (simp add: writeBigUInt64LE_def write_uint_le_def write_at_def)
  have 6: "writeBigUInt64LE ([word_of_int (system_type t), word_of_int (token_type t)] @ le_bytes 4 (pid t) @ [word_of_int al] @ le_bytes 8 ti @ replicate 8 0) (expire_time t) 15
      = Inr ([word_of_int (system_type t), word_of_int (token_type t)] @ le_bytes 4 (pid t) @ [word_of_int al] @ le_bytes 8 ti @ le_bytes 8 (expire_time t))"
    using r by (simp add: writeBigUInt64LE_def write_uint_le_def write_at_def)
  show ?thesis
    unfolding long_data_def 1 and_then_Inr 2 3 4 5 6 ..
qed

lemma read_uint_le_at:
  "length xs = off \<Longrightarrow> length bs = w \<Longrightarrow> read_uint_le w (xs @ bs @ ys) off = Inr (le_value bs)"
  by (simp add: read_uint_le_def)

lemma uint_byte_id: "0 \<le> v \<Longrightarrow> v < 256 \<Longrightarrow> uint (word_of_int v :: byte) = v"
  by (simp add: uint_byte_of_int)

lemma unpackToken_short:
  assumes "short_fields_ok t"
  shows "unpackToken ([word_of_int (system_type t), word_of_int (token_type t)]
            @ le_bytes 4 (pid t) @ le_bytes 8 (expire_time t)) = Inr t"
proof -
  let ?st = "word_of_int (system_type t) :: byte" and ?tt = "word_of_int (token_type t) :: byte"
  let ?buf = "[?st, ?tt] @ le_bytes 4 (pid t) @ le_bytes 8 (expire_time t)"
  have r: "0 \<le> system_type t" "system_type t < 256" "0 \<le> token_type t" "token_type t < 256"
    "0 \<le> pid t" "pid t < 2 ^ 32" "0 \<le> expire_time t" "expire_time t < 2 ^ 64"
    "access_level t = None" "title_id t = None"
    using assms by (simp_all add: short_fields_ok_def common_fields_ok_def)
  have len: "length ?buf \<le> 14" by simp
  have 1: "readUInt8 ?buf 0 = Inr (system_type t)"
    using read_uint_le_at[of "[]" 0 "[?st]" 1 "?tt # le_bytes 4 (pid t) @ le_bytes 8 (expire_time t)"] r
    by (simp add: readUInt8_def uint_byte_id)
  have 2: "readUInt8 ?buf 1 = Inr (token_type t)"
    using read_uint_le_at[of "[?st]" 1 "[?tt]" 1 "le_bytes 4 (pid t) @ le_bytes 8 (expire_time t)"] r
    by (simp add: readUInt8_def uint_byte_id)
  have 3: "readUInt32LE ?buf 2 = Inr (pid t)"
    using read_uint_le_at[of "[?st, ?tt]" 2 "le_bytes 4 (pid t)" 4 "le_bytes 8 (expire_time t)"] r
    by (simp add: readUInt32LE_def le_value_le_bytes)
  have 4: "readBigUInt64LE ?buf 6 = Inr (expire_time t)"
    using read_uint_le_at[of "[?st, ?tt] @ le_bytes 4 (pid t)" 6 "le_bytes 8 (expire_time t)" 8 "[]"] r
    by (simp add: readBigUInt64LE_def le_value_le_bytes)
  have "unpackToken ?buf = Inr \<lparr>system_type = system_type t, token_type = token_type t, pid = pid t,
             access_level = None, title_id = None, expire_time = expire_time t\<rparr>"
    unfolding unpackToken_def using len by (simp only: if_True 1 2 3 4 and_then_Inr)
  also have "\<dots> = Inr t" using r by simp
  finally show ?thesis .
qed

lemma unpackToken_long:
  assumes "common_fields_ok t" "access_level t = Some al" "0 \<le> al" "al < 256"
    "title_id t = Some ti" "0 \<le> ti" "ti < 2 ^ 64"
  shows "unpackToken ([word_of_int (system_type t), word_of_int (token_type t)]
            @ le_bytes 4 (pid t) @ [word_of_int al] @ le_bytes 8 ti @ le_bytes 8 (expire_time t)) = Inr t"
proof -
  let ?st = "word_of_int (system_type t) :: byte" and ?tt = "word_of_int (token_type t) :: byte"
  let ?al = "word_of_int al :: byte"
  let ?buf = "[?st, ?tt] @ le_bytes 4 (pid t) @ [?al] @ le_bytes 8 ti @ le_bytes 8 (expire_time t)"
  have r: "0 \<le> system_type t" "system_type t < 256" "0 \<le> token_type t" "token_type t < 256"
    "0 \<le> pid t" "pid t < 2 ^ 32" "0 \<le> expire_time t" "expire_time t < 2 ^ 64"
    using assms by (simp_all add: common_fields_ok_def)
  have len: "\<not> length ?buf \<le> 14" by simp
  have 1: "readUInt8 ?buf 0 = Inr (system_type t)"
    using read_uint_le_at[of "[]" 0 "[?st]" 1 "?tt # le_bytes 4 (pid t) @ [?al] @ le_bytes 8 ti @ le_bytes 8 (expire_time t)"] r
    by (simp add: readUInt8_def uint_byte_id)
  have 2: "readUInt8 ?buf 1 = Inr (token_type t)"
    using read_uint_le_at[of "[?st]" 1 "[?tt]" 1 "le_bytes 4 (pid t) @ [?al] @ le_bytes 8 ti @ le_bytes 8 (expire_time t)"] r
    by (simp add: readUInt8_def uint_byte_id)
  have 3: "readUInt32LE ?buf 2 = Inr (pid t)"
    using read_uint_le_at[of "[?st, ?tt]" 2 "le_bytes 4 (pid t)" 4 "[?al] @ le_bytes 8 ti @ le_bytes 8 (expire_time t)"] r
    by (simp add: readUInt32LE_def le_value_le_bytes)
  have 4: "readUInt8 ?buf 6 = Inr al"
    using read_uint_le_at[of "[?st, ?tt] @ le_bytes 4 (pid t)" 6 "[?al]" 1 "le_bytes 8 ti @ le_bytes 8 (expire_time t)"] assms
    by (simp add: readUInt8_def uint_byte_id)
  have 5: "readBigUInt64LE ?buf 7 = Inr ti"
    using read_uint_le_at[of "[?st, ?tt] @ le_bytes 4 (pid t) @ [?al]" 7 "le_bytes 8 ti" 8 "le_bytes 8 (expire_time t)"] assms
    by (simp add: readBigUInt64LE_def le_value_le_bytes)
  have 6: "readBigUInt64LE ?buf 15 = Inr (expire_time t)"
    using read_uint_le_at[of "[?st, ?tt] @ le_bytes 4 (pid t) @ [?al] @ le_bytes 8 ti" 15 "le_bytes 8 (expire_time t)" 8 "[]"] r
    by (simp add: readBigUInt64LE_def le_value_le_bytes)
  have "unpackToken ?buf = Inr \<lparr>system_type = system_type t, token_type = token_type t, pid = pid t,
             access_level = Some al, title_id = Some ti, expire_time = expire_time t\<rparr>"
    unfolding unpackToken_def using len by (simp only: if_False 1 2 3 4 5 6 and_then_Inr)
  also have "\<dots> = Inr t" using assms by simp
  finally show ?thesis .
qed

section \<open>Block padding and CBC\<close>

lemma length_xor_bytes [simp]: "length (xor_bytes a b) = min (length a) (length b)"
  by (simp add: xor_bytes_def)

lemma xor_bytes_cancel: "length a = length b \<Longrightarrow> xor_bytes (xor_bytes a b) b = a"
proof (induction a b rule: list_induct2)
  case Nil
  then show ?case by (simp add: xor_bytes_def)
next
  case (Cons x xs y ys)
  then show ?case by (simp add: xor_bytes_def xor.assoc)
qed

lemma pkcs7_pad_length: "length (pkcs7_pad pt) = length pt + (16 - length pt mod 16)"
  by (simp add: pkcs7_pad_def Let_def)

lemma pkcs7_pad_blocks: "length (pkcs7_pad pt) mod 16 = 0"
proof -
  have "(length pt + (16 - length pt mod 16)) mod 16 = 0" by presburger
  then show ?thesis by (simp add: pkcs7_pad_length)
qed

lemma pkcs7_pad_nonempty: "pkcs7_pad pt \<noteq> []"
proof -
  have "0 < length (pkcs7_pad pt)" unfolding pkcs7_pad_length by presburger
  then show ?thesis by auto
qed

lemma unat_pad_byte: "0 < n \<Longrightarrow> n \<le> 16 \<Longrightarrow> unat (of_nat n :: byte) = n"
  by (simp add: unat_of_nat)

lemma pkcs7_unpad_append:
  assumes "0 < n" "n \<le> 16"
  shows "pkcs7_unpad (pt @ replicate n (of_nat n)) = Inr pt"
proof -
  have l: "last (pt @ replicate n (of_nat n :: byte)) = of_nat n"
    using assms by (cases n) simp_all
  show ?thesis
    unfolding pkcs7_unpad_def l unat_pad_byte[OF assms] Let_def
    using assms by simp
qed

lemma pkcs7_unpad_pad: "pkcs7_unpad (pkcs7_pad pt) = Inr pt"
proof -
  have "0 < 16 - length pt mod 16" "16 - length pt mod 16 \<le> 16" by presburger+
  then show ?thesis unfolding pkcs7_pad_def Let_def by (rule pkcs7_unpad_append)
qed

text \<open>Unpadding succeeds only on a buffer that is its result followed by the padding.\<close>

lemma pkcs7_unpad_Inr:
  assumes "pkcs7_unpad bs = Inr pt"
  shows "bs = pt @ replicate (length bs - length pt) (last bs)"
    and "unat (last bs) = length bs - length pt"
proof -
  let ?n = "unat (last bs)"
  from assms have d: "drop (length bs - ?n) bs = replicate ?n (last bs)"
    and t: "pt = take (length bs - ?n) bs"
    by (auto simp: pkcs7_unpad_def Let_def split: if_splits)
  have "length (drop (length bs - ?n) bs) = ?n" using d by simp
  then have n: "?n \<le> length bs" by simp
  show e: "?n = length bs - length pt" using t n by simp
  have "bs = take (length bs - ?n) bs @ drop (length bs - ?n) bs" by simp
  also have "\<dots> = pt @ replicate ?n (last bs)" using d t by simp
  finally show "bs = pt @ replicate (length bs - length pt) (last bs)" using e by simp
qed

lemma pkcs7_unpad_inj:
  assumes "pkcs7_unpad bs = Inr pt" "pkcs7_unpad bs' = Inr pt" "length bs = length bs'"
  shows "bs = bs'"
proof -
  let ?n = "length bs - length pt"
  have a: "bs = pt @ replicate ?n (last bs)" by (rule pkcs7_unpad_Inr(1)[OF assms(1)])
  have b: "bs' = pt @ replicate ?n (last bs')" using pkcs7_unpad_Inr(1)[OF assms(2)] assms(3) by simp
  have "unat (last bs) = unat (last bs')"
    using pkcs7_unpad_Inr(2)[OF assms(1)] pkcs7_unpad_Inr(2)[OF assms(2)] assms(3) by simp
  then have "last bs = last bs'" by (rule word_unat_eq_iff[THEN iffD2])
  with a b show ?thesis by metis
qed

lemma cbc_round_trip:
  shows "(\<And>b. length b = 16 \<Longrightarrow> length (E b) = 16 \<and> D (E b) = b) \<Longrightarrow>
         length prev = 16 \<Longrightarrow> length pt mod 16 = 0 \<Longrightarrow>
         cbc_decrypt D prev (cbc_encrypt E prev pt) = pt \<and>
         length (cbc_encrypt E prev pt) = length pt"
proof (induction E prev pt rule: cbc_encrypt.induct)
  case (1 E prev pt)
  show ?case
  proof (cases "pt = []")
    case True
    then show ?thesis by (simp add: cbc_encrypt.simps cbc_decrypt.simps)
  next
    case False
    with "1.prems"(3) have len: "16 \<le> length pt" by (cases "length pt < 16") auto
    note blk = "1.prems"(1)
    let ?x = "xor_bytes (take 16 pt) prev"
    let ?c = "E ?x"
    have lx: "length ?x = 16" using len "1.prems"(2) by simp
    have lc: "length ?c = 16" by (rule blk[OF lx, THEN conjunct1])
    have dc: "D ?c = ?x" by (rule blk[OF lx, THEN conjunct2])
    have rest: "length (drop 16 pt) mod 16 = 0"
      using "1.prems"(3) len by (simp add: le_mod_geq)
    have ih: "cbc_decrypt D ?c (cbc_encrypt E ?c (drop 16 pt)) = drop 16 pt \<and>
          length (cbc_encrypt E ?c (drop 16 pt)) = length (drop 16 pt)"
      using "1.IH"[OF False refl blk lc rest] .
    have enc: "cbc_encrypt E prev pt = ?c @ cbc_encrypt E ?c (drop 16 pt)"
      using False by (subst cbc_encrypt.simps) (simp add: Let_def)
    have "cbc_decrypt D prev (?c @ cbc_encrypt E ?c (drop 16 pt))
        = xor_bytes (D ?c) prev @ cbc_decrypt D ?c (cbc_encrypt E ?c (drop 16 pt))"
    proof -
      have "?c \<noteq> []" using lc by (metis length_0_conv zero_neq_numeral)
      then show ?thesis using lc by (subst cbc_decrypt.simps) simp
    qed
    also have "\<dots> = take 16 pt @ drop 16 pt"
      using ih dc xor_bytes_cancel[of "take 16 pt" prev] len "1.prems"(2) by simp
    finally show ?thesis using enc ih lc len by simp
  qed
qed

lemma cbc_round_trip_rev:
  shows "(\<And>b. length b = 16 \<Longrightarrow> length (D b) = 16 \<and> E (D b) = b) \<Longrightarrow>
         length prev = 16 \<Longrightarrow> length ct mod 16 = 0 \<Longrightarrow>
         cbc_encrypt E prev (cbc_decrypt D prev ct) = ct \<and>
         length (cbc_decrypt D prev ct) = length ct"
proof (induction D prev ct rule: cbc_decrypt.induct)
  case (1 D prev ct)
  show ?case
  proof (cases "ct = []")
    case True
    then show ?thesis by (simp add: cbc_encrypt.simps cbc_decrypt.simps)
  next
    case False
    with "1.prems"(3) have len: "16 \<le> length ct" by (cases "length ct < 16") auto
    note blk = "1.prems"(1)
    let ?c = "take 16 ct"
    let ?p = "xor_bytes (D ?c) prev"
    have lc: "length ?c = 16" using len by simp
    have ld: "length (D ?c) = 16" by (rule blk[OF lc, THEN conjunct1])
    have ed: "E (D ?c) = ?c" by (rule blk[OF lc, THEN conjunct2])
    have lp: "length ?p = 16" using ld "1.prems"(2) by simp
    have rest: "length (drop 16 ct) mod 16 = 0"
      using "1.prems"(3) len by (simp add: le_mod_geq)
    have ih: "cbc_encrypt E ?c (cbc_decrypt D ?c (drop 16 ct)) = drop 16 ct \<and>
          length (cbc_decrypt D ?c (drop 16 ct)) = length (drop 16 ct)"
      using "1.IH"[OF False blk lc rest] .
    have dec: "cbc_decrypt D prev ct = ?p @ cbc_decrypt D ?c (drop 16 ct)"
      using False by (subst cbc_decrypt.simps) simp
    have x: "xor_bytes ?p prev = D ?c"
      using xor_bytes_cancel[of "D ?c" prev] ld "1.prems"(2) by simp
    have "cbc_encrypt E prev (?p @ cbc_decrypt D ?c (drop 16 ct))
        = E (xor_bytes ?p prev) @ cbc_encrypt E (E (xor_bytes ?p prev)) (cbc_decrypt D ?c (drop 16 ct))"
    proof -
      have "?p \<noteq> []" using lp by (metis length_0_conv zero_neq_numeral)
      then show ?thesis using lp by (subst cbc_encrypt.simps) (simp add: Let_def)
    qed
    also have "\<dots> = ?c @ drop 16 ct" unfolding x ed using ih by simp
    finally show ?thesis using dec ih lp len by simp
  qed
qed

lemma block_cipher_okD:
  assumes "block_cipher_ok lib" "length k = 16" "length b = 16"
  shows "length (aes_block_encrypt lib k b) = 16" "length (aes_block_decrypt lib k b) = 16"
    "aes_block_decrypt lib k (aes_block_encrypt lib k b) = b"
    "aes_block_encrypt lib k (aes_block_decrypt lib k b) = b"
  using assms unfolding block_cipher_ok_def by blast+

lemma aes_128_cbc_encrypt_ok:
  "length key = 16 \<Longrightarrow> length iv = 16 \<Longrightarrow>
   aes_128_cbc_encrypt lib key iv data
     = Inr (cbc_encrypt (aes_block_encrypt lib key) iv (pkcs7_pad data))"
  by (simp add: aes_128_cbc_encrypt_def)

lemma cbc_encrypt_pad_length:
  assumes "block_cipher_ok lib" "length key = 16" "length iv = 16"
  shows "length (cbc_encrypt (aes_block_encrypt lib key) iv (pkcs7_pad data))
         = length data + (16 - length data mod 16)"
  using cbc_round_trip[of "aes_block_encrypt lib key" "aes_block_decrypt lib key" iv "pkcs7_pad data"]
    block_cipher_okD[OF assms(1,2)] assms(3) pkcs7_pad_blocks[of data]
  by (simp add: pkcs7_pad_length)

lemma aes_128_cbc_round_trip:
  assumes "block_cipher_ok lib" "length key = 16" "length iv = 16"
  shows "aes_128_cbc_decrypt lib key iv
           (cbc_encrypt (aes_block_encrypt lib key) iv (pkcs7_pad data)) = Inr data"
proof -
  let ?ct = "cbc_encrypt (aes_block_encrypt lib key) iv (pkcs7_pad data)"
  have rt: "cbc_decrypt (aes_block_decrypt lib key) iv ?ct = pkcs7_pad data"
    and len: "length ?ct = length (pkcs7_pad data)"
    using cbc_round_trip[of "aes_block_encrypt lib key" "aes_block_decrypt lib key" iv "pkcs7_pad data"]
      block_cipher_okD[OF assms(1,2)] assms(3) pkcs7_pad_blocks[of data]
    by simp_all
  have ne: "?ct \<noteq> []" using len pkcs7_pad_nonempty[of data] by auto
  have "length ?ct mod 16 = 0" using len pkcs7_pad_blocks[of data] by simp
  then show ?thesis
    unfolding aes_128_cbc_decrypt_def rt using assms(2,3) ne by (simp add: pkcs7_unpad_pad)
qed

section \<open>Short tokens\<close>

lemma toy_block_cipher_ok: "block_cipher_ok toy_lib"
  by (simp add: block_cipher_ok_def toy_lib_def xor_bytes_cancel)

lemma toy_rsa_1024_pair: "rsa_1024_pair toy_lib pub priv"
  by (simp add: rsa_1024_pair_def toy_lib_def)

lemma toy_hmac_sha1_ok: "hmac_sha1_ok toy_lib"
  by (simp add: hmac_sha1_ok_def toy_lib_def)

lemma toy_entropy_ok: "entropy_ok toy_entropy"
  by (simp add: entropy_ok_def toy_entropy_def)

lemma toy_aes_key_length: "length (aes_key toy_keys) = 16"
  by (simp add: toy_keys_def)

lemma reset_token_short_ok: "short_fields_ok reset_token_short"
  by (simp add: short_fields_ok_def common_fields_ok_def reset_token_short_def)

lemma sample_token_long_ok: "long_fields_ok sample_token_long"
  by (simp add: long_fields_ok_def common_fields_ok_def sample_token_long_def)

lemma length_spec_short_plaintext: "length (spec_short_plaintext t) = 14"
  by (simp add: spec_short_plaintext_def)

lemma length_spec_long_plaintext: "length (spec_long_plaintext t) = 23"
  by (simp add: spec_long_plaintext_def)

lemma generateToken_short:
  assumes "length (aes_key keys) = 16" "common_fields_ok F"
  shows "generateToken lib keys rnd None F =
           Inr (Some (toString_base64
             (cbc_encrypt (aes_block_encrypt lib (aes_key keys)) (replicate 16 0)
               (pkcs7_pad (spec_short_plaintext F)))))"
  unfolding generateToken_def spec_short_plaintext_def
  using assms by (simp add: short_data_layout aes_128_cbc_encrypt_ok)

lemma decode_short_wire:
  assumes "block_cipher_ok lib" "length (aes_key keys) = 16" "short_fields_ok F"
  shows "decode lib keys (toString_base64
             (cbc_encrypt (aes_block_encrypt lib (aes_key keys)) (replicate 16 0)
               (pkcs7_pad (spec_short_plaintext F)))) = Inr F"
proof -
  let ?ct = "cbc_encrypt (aes_block_encrypt lib (aes_key keys)) (replicate 16 0)
               (pkcs7_pad (spec_short_plaintext F))"
  have "length ?ct = 16"
    using cbc_encrypt_pad_length[OF assms(1,2), of "replicate 16 0" "spec_short_plaintext F"]
    by (simp add: length_spec_short_plaintext)
  then have short: "is_short_format ?ct" by (simp add: is_short_format_def)
  have "decryptToken lib keys ?ct = Inr (spec_short_plaintext F)"
    unfolding decryptToken_def using short
    by (simp add: aes_128_cbc_round_trip[OF assms(1,2)])
  then show ?thesis
    unfolding decode_def decode_bytes_def from_base64_toString
    using unpackToken_short[OF assms(3)] by (simp add: spec_short_plaintext_def)
qed

text \<open>
  Claim C5.  For every short field set \<open>F\<close> (fields in range, no \<open>access_level\<close>, no
  \<open>title_id\<close>) and every 16-byte AES key, \<open>generateToken\<close> without crypto options returns the
  base64 text of the AES-128-CBC encryption, under the all-zero 16-byte IV, of the padded
  14-byte plaintext that holds \<open>system_type\<close> at byte 0, \<open>token_type\<close> at byte 1, \<open>pid\<close> as
  four little-endian bytes at byte 2 and \<open>expire_time\<close> as eight at byte 6; decoding that
  token under the same key gives \<open>F\<close> back.
\<close>

theorem short_token_round_trip:
  assumes "block_cipher_ok lib" "length (aes_key keys) = 16" "short_fields_ok F"
  shows "\<exists>wire. generateToken lib keys rnd None F = Inr (Some wire) \<and>
           length (spec_short_plaintext F) = 14 \<and>
           from_base64 wire =
             cbc_encrypt (aes_block_encrypt lib (aes_key keys)) (replicate 16 0)
               (pkcs7_pad (spec_short_plaintext F)) \<and>
           decode lib keys wire = Inr F"
proof -
  have c: "common_fields_ok F" using assms(3) by (simp add: short_fields_ok_def)
  show ?thesis
    using generateToken_short[OF assms(2) c, of lib rnd] decode_short_wire[OF assms]
    by (simp add: from_base64_toString length_spec_short_plaintext)
qed

theorem short_token_round_trip_witness:
  "block_cipher_ok toy_lib \<and> length (aes_key toy_keys) = 16 \<and>
   short_fields_ok reset_token_short \<and>
   (\<exists>wire. generateToken toy_lib toy_keys toy_entropy None reset_token_short = Inr (Some wire) \<and>
      length (spec_short_plaintext reset_token_short) = 14 \<and>
      from_base64 wire =
        cbc_encrypt (aes_block_encrypt toy_lib (aes_key toy_keys)) (replicate 16 0)
          (pkcs7_pad (spec_short_plaintext reset_token_short)) \<and>
      decode toy_lib toy_keys wire = Inr reset_token_short)"
  using short_token_round_trip[OF toy_block_cipher_ok toy_aes_key_length reset_token_short_ok,
      of toy_entropy]
    toy_block_cipher_ok toy_aes_key_length reset_token_short_ok
  by blast

section \<open>Points and slices\<close>

lemma excess_bits_le: "p < 2 ^ (53 + j) \<Longrightarrow> excess_bits p \<le> j"
proof (induction j arbitrary: p)
  case 0
  then show ?case by (simp add: excess_bits.simps)
next
  case (Suc j)
  show ?case
  proof (cases "p < 2 ^ 53")
    case True
    then show ?thesis by (simp add: excess_bits.simps)
  next
    case False
    have "(2::nat) ^ (53 + Suc j) = 2 * 2 ^ (53 + j)" by (simp only: add_Suc_right power_Suc)
    then have "p < 2 * 2 ^ (53 + j)" using Suc.prems by linarith
    then have "p div 2 < 2 ^ (53 + j)" by linarith
    then have "excess_bits (p div 2) \<le> j" by (rule Suc.IH)
    then show ?thesis using False by (subst excess_bits.simps) simp
  qed
qed

lemma round_to_53_le: "round_to_53 p \<le> p + 2 ^ excess_bits p div 2"
proof -
  let ?s = "excess_bits p"
  have split: "p = p div 2 ^ ?s * 2 ^ ?s + p mod 2 ^ ?s"
    using div_mult_mod_eq[of p "2 ^ ?s"] by linarith
  show ?thesis
  proof (cases "?s = 0")
    case True
    then show ?thesis by (simp add: round_to_53_def)
  next
    case False
    then obtain s' where s': "?s = Suc s'" by (cases ?s) auto
    have half2: "(2::nat) ^ ?s = 2 ^ ?s div 2 + 2 ^ ?s div 2" using s' by simp
    have down: "p div 2 ^ ?s * 2 ^ ?s \<le> p" by simp
    have up: "(p div 2 ^ ?s + 1) * 2 ^ ?s \<le> p + 2 ^ ?s div 2"
      if "2 ^ ?s div 2 \<le> p mod 2 ^ ?s"
    proof -
      have "(p div 2 ^ ?s + 1) * 2 ^ ?s = p div 2 ^ ?s * 2 ^ ?s + 2 ^ ?s"
        by (simp add: algebra_simps)
      also have "\<dots> = p div 2 ^ ?s * 2 ^ ?s + 2 ^ ?s div 2 + 2 ^ ?s div 2"
        using half2 by linarith
      also have "\<dots> \<le> p div 2 ^ ?s * 2 ^ ?s + p mod 2 ^ ?s + 2 ^ ?s div 2"
        using that by linarith
      also have "\<dots> = p + 2 ^ ?s div 2" using split by linarith
      finally show ?thesis .
    qed
    show ?thesis
      unfolding round_to_53_def Let_def
      using False down up by (auto simp: trans_le_add1)
  qed
qed

lemma to_int32_small: "0 \<le> x \<Longrightarrow> x < 2 ^ 31 \<Longrightarrow> to_int32 x = x"
  by (simp add: to_int32_def)

text \<open>A point of a 128-byte key lies in \<open>[0, 120)\<close>, also after the rounding of the product.\<close>

lemma point_range:
  assumes "is_unit_double r"
  shows "0 \<le> mul_to_int32 120 r \<and> mul_to_int32 120 r < 120"
proof -
  obtain m k where r: "r = UnitDouble m k" by (cases r)
  with assms have m: "m < 2 ^ 53" and k: "53 \<le> k" by simp_all
  let ?p = "120 * m"
  have "?p < 2 ^ (53 + 7)" using m by simp
  then have s: "excess_bits ?p \<le> 7" by (rule excess_bits_le)
  have "(2::nat) ^ excess_bits ?p \<le> 2 ^ 7" by (rule power_increasing[OF s]) simp
  then have "(2::nat) ^ excess_bits ?p div 2 \<le> 64" by simp
  then have "round_to_53 ?p \<le> ?p + 64" using round_to_53_le[of ?p] by linarith
  also have "\<dots> < 120 * 2 ^ 53" using m by simp
  also have "\<dots> \<le> 120 * 2 ^ k"
  proof -
    have "(2::nat) ^ 53 \<le> 2 ^ k" by (rule power_increasing[OF k]) simp
    then show ?thesis by linarith
  qed
  finally have "round_to_53 ?p div 2 ^ k < 120"
    by (simp add: less_mult_imp_div_less mult.commute)
  then show ?thesis
    unfolding r by (simp add: to_int32_small)
qed

lemma subarray_window:
  assumes "0 \<le> p" "nat p + 8 \<le> length buf"
  shows "subarray buf p (p + 8) = take 8 (drop (nat p) buf)"
proof -
  have "p + 8 \<le> int (length buf)" using assms by linarith
  then show ?thesis using assms by (simp add: subarray_def Let_def min_def)
qed

lemma length_derive_iv:
  assumes "0 \<le> p1" "p1 < 120" "0 \<le> p2" "p2 < 120" "length ek = 128"
  shows "length (derive_iv ek p1 p2) = 16"
proof -
  have "nat p1 + 8 \<le> length ek" "nat p2 + 8 \<le> length ek" using assms by simp_all
  then show ?thesis
    unfolding derive_iv_def using assms by (simp add: subarray_window)
qed

lemma sint_point: "0 \<le> p \<Longrightarrow> p < 120 \<Longrightarrow> sint (word_of_int p :: byte) = p"
  by (simp add: sint_sbintrunc' signed_take_bit_int_eq_self)

section \<open>Long tokens\<close>

lemma and_then_eq_Inr: "and_then r f = Inr y \<longleftrightarrow> (\<exists>x. r = Inr x \<and> f x = Inr y)"
  by (cases r) simp_all

lemma write_uint_le_Inr:
  assumes "write_uint_le w buf v off = Inr b"
  shows "0 \<le> v \<and> v < 2 ^ (8 * w) \<and> length b = length buf"
  using assms by (auto simp: write_uint_le_def write_at_def split: if_splits)

lemma short_data_Inr:
  assumes "short_data F = Inr data"
  shows "common_fields_ok F \<and> length data = 14"
proof -
  from assms obtain b1 b2 b3 where
    1: "write_uint_le 1 (replicate 14 0) (system_type F) 0 = Inr b1" and
    2: "write_uint_le 1 b1 (token_type F) 1 = Inr b2" and
    3: "write_uint_le 4 b2 (pid F) 2 = Inr b3" and
    4: "write_uint_le 8 b3 (expire_time F) 6 = Inr data"
    unfolding short_data_def writeUInt8_def writeUInt32LE_def writeBigUInt64LE_def and_then_eq_Inr
    by blast
  show ?thesis
    using write_uint_le_Inr[OF 1] write_uint_le_Inr[OF 2] write_uint_le_Inr[OF 3]
      write_uint_le_Inr[OF 4]
    by (simp add: common_fields_ok_def)
qed

lemma long_data_Inr:
  assumes "long_data F al ti = Inr data"
  shows "common_fields_ok F \<and> 0 \<le> al \<and> al < 256 \<and> 0 \<le> ti \<and> ti < 2 ^ 64 \<and> length data = 23"
proof -
  from assms obtain b1 b2 b3 b4 b5 where
    1: "write_uint_le 1 (replicate 23 0) (system_type F) 0 = Inr b1" and
    2: "write_uint_le 1 b1 (token_type F) 1 = Inr b2" and
    3: "write_uint_le 4 b2 (pid F) 2 = Inr b3" and
    4: "write_uint_le 1 b3 al 6 = Inr b4" and
    5: "write_uint_le 8 b4 ti 7 = Inr b5" and
    6: "write_uint_le 8 b5 (expire_time F) 15 = Inr data"
    unfolding long_data_def writeUInt8_def writeUInt32LE_def writeBigUInt64LE_def and_then_eq_Inr
    by blast
  show ?thesis
    using write_uint_le_Inr[OF 1] write_uint_le_Inr[OF 2] write_uint_le_Inr[OF 3]
      write_uint_le_Inr[OF 4] write_uint_le_Inr[OF 5] write_uint_le_Inr[OF 6]
    by (simp add: common_fields_ok_def)
qed

lemma long_data_spec:
  assumes "long_fields_ok F"
  shows "long_data F (the (access_level F)) (the (title_id F)) = Inr (spec_long_plaintext F)"
proof -
  from assms obtain al ti where
    "common_fields_ok F" "access_level F = Some al" "0 \<le> al" "al < 256"
    "title_id F = Some ti" "0 \<le> ti" "ti < 2 ^ 64"
    by (auto simp: long_fields_ok_def split: option.splits)
  then show ?thesis
    using long_data_layout[of F al ti] by (simp add: spec_long_plaintext_def)
qed

lemma long_data_Inr_spec:
  assumes "long_data F (the (access_level F)) (the (title_id F)) = Inr data"
    "\<not> falsy (access_level F)" "\<not> falsy (title_id F)"
  shows "long_fields_ok F \<and> data = spec_long_plaintext F"
proof -
  have "long_fields_ok F"
    using long_data_Inr[OF assms(1)] assms(2,3)
    by (auto simp: long_fields_ok_def falsy_def split: option.splits)
  then show ?thesis using long_data_spec[of F] assms(1) by simp
qed

lemma unpackToken_long_spec:
  assumes "long_fields_ok F"
  shows "unpackToken (spec_long_plaintext F) = Inr F"
proof -
  from assms obtain al ti where
    "common_fields_ok F" "access_level F = Some al" "0 \<le> al" "al < 256"
    "title_id F = Some ti" "0 \<le> ti" "ti < 2 ^ 64"
    by (auto simp: long_fields_ok_def split: option.splits)
  then show ?thesis
    using unpackToken_long[of F al ti] by (simp add: spec_long_plaintext_def)
qed

text \<open>What \<open>decryptToken\<close> does with a buffer that has the long shape.\<close>

lemma token_iv_long_shape:
  assumes "length ek = 128" "0 \<le> p1" "p1 < 120" "0 \<le> p2" "p2 < 120"
  shows "token_iv (ek @ [word_of_int p1, word_of_int p2] @ rest) = Inr (derive_iv ek p1 p2)"
proof -
  have cc: "subarray (ek @ [word_of_int p1, word_of_int p2] @ rest) 0 0x82
        = ek @ [word_of_int p1, word_of_int p2]"
    using assms(1) by (simp add: subarray_def Let_def)
  have k: "subarray (ek @ [word_of_int p1, word_of_int p2]) 0 128 = ek"
    using assms(1) by (simp add: subarray_def Let_def)
  have r1: "readInt8 (ek @ [word_of_int p1, word_of_int p2]) 0x80 = Inr p1"
    using assms by (simp add: readInt8_def nth_append sint_point)
  have r2: "readInt8 (ek @ [word_of_int p1, word_of_int p2]) 0x81 = Inr p2"
    using assms by (simp add: readInt8_def nth_append sint_point)
  show ?thesis
    unfolding token_iv_def cc Let_def k r1 r2 by simp
qed

lemma decryptToken_long_shape:
  assumes "length ek = 128" "0 \<le> p1" "p1 < 120" "0 \<le> p2" "p2 < 120" "length sig = 20"
    "private_pem_ok lib (private_key keys)"
  shows "decryptToken lib keys (ek @ [word_of_int p1, word_of_int p2] @ sig @ body) =
         and_then (rsa_decrypt lib (private_key keys) ek) (\<lambda>k.
         and_then (aes_128_cbc_decrypt lib k (derive_iv ek p1 p2) body) (\<lambda>P.
         if sig \<noteq> hmac_sha1 lib (secret_key keys) P then Inr [] else Inr P))"
proof -
  let ?tok = "ek @ [word_of_int p1, word_of_int p2] @ sig @ body"
  have long: "\<not> is_short_format ?tok" using assms(1,6) by (simp add: is_short_format_def)
  have cc: "subarray ?tok 0 0x82 = ek @ [word_of_int p1, word_of_int p2]"
    using assms(1) by (simp add: subarray_def Let_def)
  have k: "subarray (ek @ [word_of_int p1, word_of_int p2]) 0 128 = ek"
    using assms(1) by (simp add: subarray_def Let_def)
  have sg: "subarray ?tok 0x82 0x96 = sig"
    using assms(1,6) by (simp add: subarray_def Let_def)
  have bd: "subarray ?tok 0x96 (int (length ?tok)) = body"
    using assms(1,6) by (simp add: subarray_def Let_def)
  have iv: "token_iv ?tok = Inr (derive_iv ek p1 p2)"
    by (rule token_iv_long_shape[OF assms(1-5)])
  show ?thesis
    unfolding decryptToken_def Let_def cc k sg bd iv
    using long assms(7) by simp
qed

lemma generateToken_long:
  assumes "public_pem_ok lib (public_key co)"
    "rsa_encrypt lib (public_key co) (oaep_seed rnd) (random_key rnd) = Inr ek" "length ek = 128"
    "entropy_ok rnd" "long_fields_ok F" "\<not> falsy (access_level F)" "\<not> falsy (title_id F)"
  shows "generateToken lib keys rnd (Some co) F =
     Inr (Some (toString_base64
       (ek @ [word_of_int (mul_to_int32 120 (random1 rnd)),
              word_of_int (mul_to_int32 120 (random2 rnd))]
           @ hmac_sha1 lib (hmac_secret co) (spec_long_plaintext F)
           @ cbc_encrypt (aes_block_encrypt lib (random_key rnd))
               (derive_iv ek (mul_to_int32 120 (random1 rnd)) (mul_to_int32 120 (random2 rnd)))
               (pkcs7_pad (spec_long_plaintext F)))))"
proof -
  let ?p1 = "mul_to_int32 120 (random1 rnd)" and ?p2 = "mul_to_int32 120 (random2 rnd)"
  have e: "length (random_key rnd) = 16" "is_unit_double (random1 rnd)" "is_unit_double (random2 rnd)"
    using assms(4) by (simp_all add: entropy_ok_def)
  have iv: "length (derive_iv ek ?p1 ?p2) = 16"
    using point_range[OF e(2)] point_range[OF e(3)] assms(3) by (simp add: length_derive_iv)
  have n: "int (length ek) - 8 = 120" using assms(3) by simp
  show ?thesis
    unfolding generateToken_def
    using assms(1,6,7)
    by (simp add: long_data_spec[OF assms(5)] assms(2) Let_def n
        aes_128_cbc_encrypt_ok[OF e(1) iv])
qed

lemma generateToken_long_Some:
  assumes "rsa_1024_pair lib (public_key co) priv" "entropy_ok rnd"
    "generateToken lib keys rnd (Some co) F = Inr (Some wire)"
  shows "\<exists>ek. rsa_encrypt lib (public_key co) (oaep_seed rnd) (random_key rnd) = Inr ek \<and>
           length ek = 128 \<and> rsa_decrypt lib priv ek = Inr (random_key rnd) \<and>
           long_fields_ok F \<and> \<not> falsy (access_level F) \<and> \<not> falsy (title_id F) \<and>
           wire = toString_base64
             (ek @ [word_of_int (mul_to_int32 120 (random1 rnd)),
                    word_of_int (mul_to_int32 120 (random2 rnd))]
                 @ hmac_sha1 lib (hmac_secret co) (spec_long_plaintext F)
                 @ cbc_encrypt (aes_block_encrypt lib (random_key rnd))
                     (derive_iv ek (mul_to_int32 120 (random1 rnd)) (mul_to_int32 120 (random2 rnd)))
                     (pkcs7_pad (spec_long_plaintext F)))"
proof -
  have k: "length (random_key rnd) = 16" using assms(2) by (simp add: entropy_ok_def)
  from assms(1) k obtain ek where
    ek: "rsa_encrypt lib (public_key co) (oaep_seed rnd) (random_key rnd) = Inr ek"
      "length ek = 128" "rsa_decrypt lib priv ek = Inr (random_key rnd)"
    and pem: "public_pem_ok lib (public_key co)"
    unfolding rsa_1024_pair_def by blast
  have nf: "\<not> falsy (access_level F)" "\<not> falsy (title_id F)"
    using assms(3) by (auto simp: generateToken_def split: if_splits)
  obtain data where
    data: "long_data F (the (access_level F)) (the (title_id F)) = Inr data"
    using assms(3) nf pem
    by (cases "long_data F (the (access_level F)) (the (title_id F))")
       (simp_all add: generateToken_def)
  have ok: "long_fields_ok F" using long_data_Inr_spec[OF data nf] by simp
  have "generateToken lib keys rnd (Some co) F = Inr (Some wire)" by (rule assms(3))
  then have "wire = toString_base64
             (ek @ [word_of_int (mul_to_int32 120 (random1 rnd)),
                    word_of_int (mul_to_int32 120 (random2 rnd))]
                 @ hmac_sha1 lib (hmac_secret co) (spec_long_plaintext F)
                 @ cbc_encrypt (aes_block_encrypt lib (random_key rnd))
                     (derive_iv ek (mul_to_int32 120 (random1 rnd)) (mul_to_int32 120 (random2 rnd)))
                     (pkcs7_pad (spec_long_plaintext F)))"
    unfolding generateToken_long[OF pem ek(1,2) assms(2) ok nf] by simp
  then show ?thesis using ek ok nf by blast
qed

text \<open>Away from the zero fields, a long token decodes to the fields it was made from.\<close>

lemma long_token_round_trip_nonzero:
  assumes "block_cipher_ok lib" "rsa_1024_pair lib (public_key co) (private_key keys)"
    "hmac_sha1_ok lib" "hmac_secret co = secret_key keys" "entropy_ok rnd"
    "long_fields_ok F" "\<not> falsy (access_level F)" "\<not> falsy (title_id F)"
  shows "\<exists>wire. generateToken lib keys rnd (Some co) F = Inr (Some wire) \<and>
           decode lib keys wire = Inr F"
proof -
  let ?p1 = "mul_to_int32 120 (random1 rnd)" and ?p2 = "mul_to_int32 120 (random2 rnd)"
  have e: "length (random_key rnd) = 16" "is_unit_double (random1 rnd)" "is_unit_double (random2 rnd)"
    using assms(5) by (simp_all add: entropy_ok_def)
  from assms(2) e(1) obtain ek where
    ek: "rsa_encrypt lib (public_key co) (oaep_seed rnd) (random_key rnd) = Inr ek"
      "length ek = 128" "rsa_decrypt lib (private_key keys) ek = Inr (random_key rnd)"
    and pem: "public_pem_ok lib (public_key co)" "private_pem_ok lib (private_key keys)"
    unfolding rsa_1024_pair_def by blast
  let ?sig = "hmac_sha1 lib (hmac_secret co) (spec_long_plaintext F)"
  let ?iv = "derive_iv ek ?p1 ?p2"
  let ?body = "cbc_encrypt (aes_block_encrypt lib (random_key rnd)) ?iv (pkcs7_pad (spec_long_plaintext F))"
  let ?tok = "ek @ [word_of_int ?p1, word_of_int ?p2] @ ?sig @ ?body"
  have p: "0 \<le> ?p1" "?p1 < 120" "0 \<le> ?p2" "?p2 < 120"
    using point_range[OF e(2)] point_range[OF e(3)] by simp_all
  have iv: "length ?iv = 16" using p ek(2) by (simp add: length_derive_iv)
  have sg: "length ?sig = 20" using assms(3) by (simp add: hmac_sha1_ok_def)
  have gen: "generateToken lib keys rnd (Some co) F = Inr (Some (toString_base64 ?tok))"
    by (rule generateToken_long[OF pem(1) ek(1,2) assms(5,6,7,8)])
  have "decryptToken lib keys ?tok = Inr (spec_long_plaintext F)"
    unfolding decryptToken_long_shape[OF ek(2) p sg pem(2)] ek(3)
    by (simp add: aes_128_cbc_round_trip[OF assms(1) e(1) iv] assms(4))
  then have "decode lib keys (toString_base64 ?tok) = Inr F"
    unfolding decode_def decode_bytes_def from_base64_toString
    by (simp add: unpackToken_long_spec[OF assms(6)])
  with gen show ?thesis by blast
qed

text \<open>
  Claim C1, at the input where it fails.  C1 says that every long field set in range comes
  back from decoding the wire token that \<open>generateToken\<close> made of it.  The field set
  \<open>zero_level_token_long\<close> is in range, with the access level 0 of an ordinary account, and
  \<open>generateToken\<close> makes no wire token of it: the test \<open>!tokenOptions.access_level\<close> takes
  the 0 for a missing field and returns \<open>null\<close>.
\<close>

theorem long_round_trip_zero_access_level:
  "long_fields_ok zero_level_token_long \<and>
   generateToken lib keys rnd (Some co) zero_level_token_long = Inr None"
  by (simp add: long_fields_ok_def common_fields_ok_def zero_level_token_long_def
      generateToken_def falsy_def)

text \<open>
  Claim C2, at the input where it fails.  C2 says that with crypto material the result is
  \<open>null\<close> only if \<open>access_level\<close> or \<open>title_id\<close> is missing, and that the values 0 are
  encoded.  \<open>reset_token_long\<close> has both fields present, with the value 0 that
  \<open>sendForgotPasswordEmail\<close> passes, and the result is \<open>null\<close>.
\<close>

theorem validation_gate_rejects_zero:
  "access_level reset_token_long = Some 0 \<and> title_id reset_token_long = Some 0 \<and>
   generateToken lib keys rnd (Some co) reset_token_long = Inr None"
  by (simp add: reset_token_long_def generateToken_def falsy_def)

text \<open>
  Claim C6.  Every long wire token that \<open>generateToken\<close> produces is, after base64 decoding,
  the 128-byte RSA ciphertext at offset 0x00, \<open>point1\<close> at 0x80, \<open>point2\<close> at 0x81, the
  20-byte HMAC-SHA1 signature of the plaintext at 0x82 and the AES-128-CBC ciphertext from
  0x96 on; both points lie in \<open>[0, 120)\<close>; the AES IV is the eight bytes of the RSA
  ciphertext from \<open>point1\<close> followed by the eight from \<open>point2\<close>, and \<open>decryptToken\<close> rebuilds
  the same IV from the token.
\<close>

theorem long_wire_layout:
  assumes "rsa_1024_pair lib (public_key co) priv" "hmac_sha1_ok lib" "entropy_ok rnd"
    "generateToken lib keys rnd (Some co) F = Inr (Some wire)"
  shows "\<exists>ek p1 p2 data sig iv.
           rsa_encrypt lib (public_key co) (oaep_seed rnd) (random_key rnd) = Inr ek \<and>
           length ek = 128 \<and> 0 \<le> p1 \<and> p1 < 120 \<and> 0 \<le> p2 \<and> p2 < 120 \<and>
           long_fields_ok F \<and> data = spec_long_plaintext F \<and>
           sig = hmac_sha1 lib (hmac_secret co) data \<and> length sig = 20 \<and>
           iv = take 8 (drop (nat p1) ek) @ take 8 (drop (nat p2) ek) \<and> length iv = 16 \<and>
           from_base64 wire =
             ek @ [word_of_int p1, word_of_int p2] @ sig
                @ cbc_encrypt (aes_block_encrypt lib (random_key rnd)) iv (pkcs7_pad data) \<and>
           token_iv (from_base64 wire) = Inr iv"
proof -
  let ?p1 = "mul_to_int32 120 (random1 rnd)" and ?p2 = "mul_to_int32 120 (random2 rnd)"
  have e: "is_unit_double (random1 rnd)" "is_unit_double (random2 rnd)"
    using assms(3) by (simp_all add: entropy_ok_def)
  have p: "0 \<le> ?p1" "?p1 < 120" "0 \<le> ?p2" "?p2 < 120"
    using point_range[OF e(1)] point_range[OF e(2)] by simp_all
  from generateToken_long_Some[OF assms(1,3,4)] obtain ek where
    ek: "rsa_encrypt lib (public_key co) (oaep_seed rnd) (random_key rnd) = Inr ek"
      "length ek = 128" and
    data: "long_fields_ok F" and
    wire: "wire = toString_base64
             (ek @ [word_of_int ?p1, word_of_int ?p2]
                 @ hmac_sha1 lib (hmac_secret co) (spec_long_plaintext F)
                 @ cbc_encrypt (aes_block_encrypt lib (random_key rnd))
                     (derive_iv ek ?p1 ?p2) (pkcs7_pad (spec_long_plaintext F)))"
    by blast
  have w: "nat ?p1 + 8 \<le> length ek" "nat ?p2 + 8 \<le> length ek" using p ek(2) by simp_all
  have iv: "derive_iv ek ?p1 ?p2 = take 8 (drop (nat ?p1) ek) @ take 8 (drop (nat ?p2) ek)"
    unfolding derive_iv_def using p w by (simp add: subarray_window)
  have ivl: "length (derive_iv ek ?p1 ?p2) = 16" using p ek(2) by (simp add: length_derive_iv)
  have sg: "length (hmac_sha1 lib (hmac_secret co) (spec_long_plaintext F)) = 20"
    using assms(2) by (simp add: hmac_sha1_ok_def)
  have tiv: "token_iv (from_base64 wire) = Inr (derive_iv ek ?p1 ?p2)"
    unfolding wire from_base64_toString by (rule token_iv_long_shape[OF ek(2) p])
  have fb: "from_base64 wire =
      ek @ [word_of_int ?p1, word_of_int ?p2]
         @ hmac_sha1 lib (hmac_secret co) (spec_long_plaintext F)
         @ cbc_encrypt (aes_block_encrypt lib (random_key rnd))
             (derive_iv ek ?p1 ?p2) (pkcs7_pad (spec_long_plaintext F))"
    unfolding wire by (rule from_base64_toString)
  show ?thesis
    using ek(1) ek(2) p(1) p(2) p(3) p(4) data refl refl sg iv ivl fb tiv
    by (intro exI[of _ ek] exI[of _ ?p1] exI[of _ ?p2] exI[of _ "spec_long_plaintext F"]
        exI[of _ "hmac_sha1 lib (hmac_secret co) (spec_long_plaintext F)"]
        exI[of _ "derive_iv ek ?p1 ?p2"] conjI)
qed

theorem long_wire_layout_witness:
  "rsa_1024_pair toy_lib (public_key toy_options) (private_key toy_keys) \<and>
   hmac_sha1_ok toy_lib \<and> entropy_ok toy_entropy \<and>
   (\<exists>wire. generateToken toy_lib toy_keys toy_entropy (Some toy_options) sample_token_long
              = Inr (Some wire) \<and>
      (\<exists>ek p1 p2 data sig iv.
           rsa_encrypt toy_lib (public_key toy_options) (oaep_seed toy_entropy)
             (random_key toy_entropy) = Inr ek \<and>
           length ek = 128 \<and> 0 \<le> p1 \<and> p1 < 120 \<and> 0 \<le> p2 \<and> p2 < 120 \<and>
           long_fields_ok sample_token_long \<and> data = spec_long_plaintext sample_token_long \<and>
           sig = hmac_sha1 toy_lib (hmac_secret toy_options) data \<and> length sig = 20 \<and>
           iv = take 8 (drop (nat p1) ek) @ take 8 (drop (nat p2) ek) \<and> length iv = 16 \<and>
           from_base64 wire =
             ek @ [word_of_int p1, word_of_int p2] @ sig
                @ cbc_encrypt (aes_block_encrypt toy_lib (random_key toy_entropy)) iv
                    (pkcs7_pad data) \<and>
           token_iv (from_base64 wire) = Inr iv))"
proof -
  have nf: "\<not> falsy (access_level sample_token_long)" "\<not> falsy (title_id sample_token_long)"
    by (simp_all add: falsy_def sample_token_long_def)
  have sec: "hmac_secret toy_options = secret_key toy_keys"
    by (simp add: toy_options_def toy_keys_def)
  from long_token_round_trip_nonzero[OF toy_block_cipher_ok toy_rsa_1024_pair toy_hmac_sha1_ok
      sec toy_entropy_ok sample_token_long_ok nf]
  obtain wire where
    w: "generateToken toy_lib toy_keys toy_entropy (Some toy_options) sample_token_long
          = Inr (Some wire)"
    by blast
  show ?thesis
    using long_wire_layout[OF toy_rsa_1024_pair toy_hmac_sha1_ok toy_entropy_ok w] w
      toy_rsa_1024_pair toy_hmac_sha1_ok toy_entropy_ok
    by blast
qed

lemma aes_128_cbc_encrypt_Inr:
  assumes "aes_128_cbc_encrypt lib key iv data = Inr ct"
  shows "length key = 16 \<and> length iv = 16 \<and>
         ct = cbc_encrypt (aes_block_encrypt lib key) iv (pkcs7_pad data)"
  using assms by (auto simp: aes_128_cbc_encrypt_def split: if_splits)

lemma generateToken_short_Some:
  assumes "block_cipher_ok lib" "generateToken lib keys rnd None F = Inr (Some wire)"
  shows "length (from_base64 wire) = 16"
proof -
  from assms(2) obtain data ct where
    data: "short_data F = Inr data" and
    ct: "aes_128_cbc_encrypt lib (aes_key keys) (replicate 16 0) data = Inr ct" and
    wire: "wire = toString_base64 ct"
    unfolding generateToken_def by (auto simp: and_then_eq_Inr)
  have len: "length data = 14" using short_data_Inr[OF data] by simp
  have k: "length (aes_key keys) = 16"
    and c: "ct = cbc_encrypt (aes_block_encrypt lib (aes_key keys)) (replicate 16 0) (pkcs7_pad data)"
    using aes_128_cbc_encrypt_Inr[OF ct] by simp_all
  have "length ct = 16"
    unfolding c using cbc_encrypt_pad_length[OF assms(1) k, of "replicate 16 0" data] len by simp
  then show ?thesis unfolding wire from_base64_toString .
qed

lemma generateToken_long_Some_length:
  assumes "block_cipher_ok lib" "rsa_1024_pair lib (public_key co) priv" "hmac_sha1_ok lib"
    "entropy_ok rnd" "generateToken lib keys rnd (Some co) F = Inr (Some wire)"
  shows "length (from_base64 wire) = 182"
proof -
  let ?p1 = "mul_to_int32 120 (random1 rnd)" and ?p2 = "mul_to_int32 120 (random2 rnd)"
  have e: "length (random_key rnd) = 16" "is_unit_double (random1 rnd)" "is_unit_double (random2 rnd)"
    using assms(4) by (simp_all add: entropy_ok_def)
  have p: "0 \<le> ?p1" "?p1 < 120" "0 \<le> ?p2" "?p2 < 120"
    using point_range[OF e(2)] point_range[OF e(3)] by simp_all
  from generateToken_long_Some[OF assms(2,4,5)] obtain ek where
    ek: "length ek = 128" and
    wire: "wire = toString_base64
             (ek @ [word_of_int ?p1, word_of_int ?p2]
                 @ hmac_sha1 lib (hmac_secret co) (spec_long_plaintext F)
                 @ cbc_encrypt (aes_block_encrypt lib (random_key rnd))
                     (derive_iv ek ?p1 ?p2) (pkcs7_pad (spec_long_plaintext F)))"
    by blast
  have iv: "length (derive_iv ek ?p1 ?p2) = 16" using p ek by (simp add: length_derive_iv)
  have sg: "length (hmac_sha1 lib (hmac_secret co) (spec_long_plaintext F)) = 20"
    using assms(3) by (simp add: hmac_sha1_ok_def)
  have body: "length (cbc_encrypt (aes_block_encrypt lib (random_key rnd))
                     (derive_iv ek ?p1 ?p2) (pkcs7_pad (spec_long_plaintext F))) = 32"
    using cbc_encrypt_pad_length[OF assms(1) e(1) iv, of "spec_long_plaintext F"]
    by (simp add: length_spec_long_plaintext)
  show ?thesis
    unfolding wire from_base64_toString using ek sg body by simp
qed



section \<open>The password hash\<close>

lemma utf8_marker: "utf8_encode [0x02, 0x65, 0x43, 0x46] = [0x02, 0x65, 0x43, 0x46]"
  by (simp add: is_high_surrogate_def is_low_surrogate_def utf8_of_code_point_def)

lemma writeUInt32LE_fresh:
  "0 \<le> p \<Longrightarrow> p < 2 ^ 32 \<Longrightarrow> writeUInt32LE (replicate 4 0) p 0 = Inr (le_bytes 4 p)"
  by (simp add: writeUInt32LE_def write_uint_le_def write_at_def)

text \<open>
  Claim C9.  For every password \<open>p\<close> and every pid that fits 32 bits, \<open>nintendoPasswordHash\<close>
  returns the lowercase hex text of the SHA-256 digest of the pid as four little-endian
  bytes, followed by the four-byte marker, followed by the UTF-8 bytes of \<open>p\<close>.  The
  function is a function of its two arguments, so equal inputs give equal outputs.
\<close>

theorem nintendoPasswordHash_spec:
  assumes "0 \<le> p" "p < 2 ^ 32"
  shows "nintendoPasswordHash lib password p = Inr (spec_password_hash lib password p)"
  unfolding nintendoPasswordHash_def spec_password_hash_def utf8_marker
    writeUInt32LE_fresh[OF assms] and_then_Inr Let_def ..

theorem nintendoPasswordHash_spec_witness:
  "(0::int) \<le> 100000 \<and> (100000::int) < 2 ^ 32 \<and>
   nintendoPasswordHash toy_lib [0x70, 0xE9] 100000
     = Inr (spec_password_hash toy_lib [0x70, 0xE9] 100000)"
  using nintendoPasswordHash_spec[of 100000 toy_lib "[0x70, 0xE9]"] by simp

section \<open>Failures of decoding\<close>

lemma read_uint_le_1: "read_uint_le 1 buf off =
    (if length buf < off + 1 then Inl (bounds_error 1 buf) else Inr (uint (buf ! off)))"
proof (cases "length buf < off + 1")
  case True
  then show ?thesis by (simp add: read_uint_le_def)
next
  case False
  then have "off < length buf" by simp
  then have "drop off buf = buf ! off # drop (Suc off) buf" by (simp add: Cons_nth_drop_Suc)
  then have "take 1 (drop off buf) = [buf ! off]" by simp
  with False show ?thesis by (simp add: read_uint_le_def)
qed

text \<open>\<open>unpackToken\<close> by the length of its argument.  The reads are made in the order of the
  source, so the first field that does not fit decides the error.\<close>

lemma unpackToken_cases:
  "unpackToken body =
     (if length body = 14 then Inr (short_fields_of body)
      else if 23 \<le> length body then Inr (long_fields_of body)
      else if length body = 0 \<or> length body = 2 \<or> length body = 3 \<or>
              length body = 6 \<or> length body = 7
      then Inl ERR_BUFFER_OUT_OF_BOUNDS
      else Inl ERR_OUT_OF_RANGE)"
proof -
  consider "length body = 0" | "length body = 1" | "2 \<le> length body" "length body < 4"
    | "4 \<le> length body" "length body < 6" | "6 \<le> length body" "length body < 8"
    | "8 \<le> length body" "length body < 14" | "length body = 14"
    | "14 < length body" "length body < 23" | "23 \<le> length body" by linarith
  then show ?thesis
  proof cases
    case 1
    then show ?thesis
      unfolding unpackToken_def readUInt8_def readUInt32LE_def readBigUInt64LE_def read_uint_le_1
      by (simp add: bounds_error_def)
  next
    case 2
    then show ?thesis
      unfolding unpackToken_def readUInt8_def readUInt32LE_def readBigUInt64LE_def read_uint_le_1
      by (simp add: bounds_error_def)
  next
    case 3
    then show ?thesis
      unfolding unpackToken_def readUInt8_def readUInt32LE_def readBigUInt64LE_def read_uint_le_1
      by (auto simp: read_uint_le_def bounds_error_def)
  next
    case 4
    then show ?thesis
      unfolding unpackToken_def readUInt8_def readUInt32LE_def readBigUInt64LE_def read_uint_le_1
      by (auto simp: read_uint_le_def bounds_error_def)
  next
    case 5
    then show ?thesis
      unfolding unpackToken_def readUInt8_def readUInt32LE_def readBigUInt64LE_def read_uint_le_1
      by (auto simp: read_uint_le_def bounds_error_def)
  next
    case 6
    then show ?thesis
      unfolding unpackToken_def readUInt8_def readUInt32LE_def readBigUInt64LE_def read_uint_le_1
      by (auto simp: read_uint_le_def bounds_error_def)
  next
    case 7
    then show ?thesis
      unfolding unpackToken_def readUInt8_def readUInt32LE_def readBigUInt64LE_def read_uint_le_1
      by (auto simp: read_uint_le_def short_fields_of_def)
  next
    case 8
    then show ?thesis
      unfolding unpackToken_def readUInt8_def readUInt32LE_def readBigUInt64LE_def read_uint_le_1
      by (auto simp: read_uint_le_def bounds_error_def)
  next
    case 9
    then show ?thesis
      unfolding unpackToken_def readUInt8_def readUInt32LE_def readBigUInt64LE_def read_uint_le_1
      by (auto simp: read_uint_le_def long_fields_of_def)
  qed
qed

lemma unpackToken_empty: "unpackToken [] = Inl ERR_BUFFER_OUT_OF_BOUNDS"
  by (simp add: unpackToken_cases)

text \<open>What \<open>decryptToken\<close> raises on an input that is too short for its format.\<close>

lemma decryptToken_short_misaligned:
  assumes "length (aes_key keys) = 16" "length token \<le> 32"
    "token = [] \<or> length token mod 16 \<noteq> 0"
  shows "decryptToken lib keys token = Inl ERR_OSSL_WRONG_FINAL_BLOCK_LENGTH"
  using assms by (auto simp: decryptToken_def is_short_format_def aes_128_cbc_decrypt_def)

lemma decryptToken_long_truncated:
  assumes "private_pem_ok lib (private_key keys)" "32 < length token" "length token < 0x82"
  shows "decryptToken lib keys token = Inl ERR_OUT_OF_RANGE"
proof -
  have cc: "subarray token 0 0x82 = token"
    using assms(3) by (simp add: subarray_def Let_def)
  have "token_iv token = Inl ERR_OUT_OF_RANGE"
  proof (cases "length token < 0x81")
    case True
    then show ?thesis
      unfolding token_iv_def cc Let_def using assms(2)
      by (auto simp: readInt8_def bounds_error_def)
  next
    case False
    with assms(3) have "length token = 0x81" by simp
    then show ?thesis
      unfolding token_iv_def cc Let_def
      by (simp add: readInt8_def bounds_error_def)
  qed
  then show ?thesis
    unfolding decryptToken_def Let_def using assms(1,2) by (simp add: is_short_format_def)
qed

text \<open>
  Claim C7, as amended.  C7 says that decoding never ends in an exception and reports its
  failures as values.  The code has no failure values: the decode pipeline hands on the
  exception of \<open>decryptToken\<close> unchanged.  With a 16-byte service key, an input of at most
  32 bytes that is empty or not a multiple of 16 bytes raises
  \<open>ERR_OSSL_WRONG_FINAL_BLOCK_LENGTH\<close>; with a private key that parses, an input of 33 to
  129 bytes raises \<open>ERR_OUT_OF_RANGE\<close> at the read of a point.  When \<open>decryptToken\<close>
  returns a body, fields are returned exactly when the body has 14 bytes or at least 23, and
  they are the little-endian values of the body's own bytes at the offsets of the layout;
  a body of any other length stops at the bounds check of a read, with
  \<open>ERR_BUFFER_OUT_OF_BOUNDS\<close> for the lengths 0, 2, 3, 6 and 7 and \<open>ERR_OUT_OF_RANGE\<close> for
  the others, so that no byte outside a buffer is read.
\<close>

theorem decode_outcomes:
  "decode_bytes lib keys token =
     (case decryptToken lib keys token of
        Inl e \<Rightarrow> Inl e
      | Inr body \<Rightarrow>
          if length body = 14 then Inr (short_fields_of body)
          else if 23 \<le> length body then Inr (long_fields_of body)
          else if length body = 0 \<or> length body = 2 \<or> length body = 3 \<or>
                  length body = 6 \<or> length body = 7
          then Inl ERR_BUFFER_OUT_OF_BOUNDS
          else Inl ERR_OUT_OF_RANGE) \<and>
   (length (aes_key keys) = 16 \<and> length token \<le> 32 \<and>
    (token = [] \<or> length token mod 16 \<noteq> 0) \<longrightarrow>
      decode_bytes lib keys token = Inl ERR_OSSL_WRONG_FINAL_BLOCK_LENGTH) \<and>
   (private_pem_ok lib (private_key keys) \<and> 32 < length token \<and> length token < 0x82 \<longrightarrow>
      decode_bytes lib keys token = Inl ERR_OUT_OF_RANGE)"
proof (intro conjI impI)
  show "decode_bytes lib keys token =
     (case decryptToken lib keys token of
        Inl e \<Rightarrow> Inl e
      | Inr body \<Rightarrow>
          if length body = 14 then Inr (short_fields_of body)
          else if 23 \<le> length body then Inr (long_fields_of body)
          else if length body = 0 \<or> length body = 2 \<or> length body = 3 \<or>
                  length body = 6 \<or> length body = 7
          then Inl ERR_BUFFER_OUT_OF_BOUNDS
          else Inl ERR_OUT_OF_RANGE)"
    unfolding decode_bytes_def and_then_def unpackToken_cases ..
next
  assume "length (aes_key keys) = 16 \<and> length token \<le> 32 \<and>
    (token = [] \<or> length token mod 16 \<noteq> 0)"
  then have "decryptToken lib keys token = Inl ERR_OSSL_WRONG_FINAL_BLOCK_LENGTH"
    using decryptToken_short_misaligned[of keys token lib] by blast
  then show "decode_bytes lib keys token = Inl ERR_OSSL_WRONG_FINAL_BLOCK_LENGTH"
    by (simp add: decode_bytes_def)
next
  assume "private_pem_ok lib (private_key keys) \<and> 32 < length token \<and> length token < 0x82"
  then have "decryptToken lib keys token = Inl ERR_OUT_OF_RANGE"
    using decryptToken_long_truncated[of lib keys token] by blast
  then show "decode_bytes lib keys token = Inl ERR_OUT_OF_RANGE"
    by (simp add: decode_bytes_def)
qed

lemma decryptToken_too_short: "decryptToken toy_lib toy_keys (replicate 33 0) = Inl ERR_OUT_OF_RANGE"
  by (simp add: decryptToken_def is_short_format_def toy_lib_def token_iv_def subarray_def
      readInt8_def bounds_error_def Let_def)

lemma long_shape_slices:
  assumes "length ek = 128" "length sig = 20"
  shows "subarray (ek @ [a, b] @ sig @ body) 0 0x82 = ek @ [a, b]"
    and "subarray (subarray (ek @ [a, b] @ sig @ body) 0 0x82) 0 128 = ek"
    and "subarray (ek @ [a, b] @ sig @ body) 0x82 0x96 = sig"
    and "subarray (ek @ [a, b] @ sig @ body) 0x96 (int (length (ek @ [a, b] @ sig @ body))) = body"
    and "\<not> is_short_format (ek @ [a, b] @ sig @ body)"
  using assms by (simp_all add: subarray_def Let_def is_short_format_def)

lemma length_toy_encrypted_key: "length toy_encrypted_key = 128"
  by (simp add: toy_encrypted_key_def)

lemma toy_rsa_decrypt_key: "rsa_decrypt toy_lib priv toy_encrypted_key = Inr (replicate 16 7)"
  by (simp add: toy_lib_def toy_encrypted_key_def)

lemma toy_private_pem_ok: "private_pem_ok toy_lib priv"
  by (simp add: toy_lib_def)

lemma length_toy_hmac: "length (hmac_sha1 toy_lib k m) = 20"
  by (simp add: toy_lib_def)

lemma length_toy_iv: "length (derive_iv toy_encrypted_key 0 60) = 16"
  by (rule length_derive_iv) (simp_all add: length_toy_encrypted_key)

text \<open>What \<open>decryptToken\<close> makes of a buffer of the long shape built on \<open>toy_encrypted_key\<close>.\<close>

lemma decryptToken_toy_shape:
  assumes "length sig = 20"
  shows "decryptToken toy_lib toy_keys (toy_encrypted_key @ [0, 60] @ sig @ body) =
         and_then (aes_128_cbc_decrypt toy_lib (replicate 16 7)
                     (derive_iv toy_encrypted_key 0 60) body) (\<lambda>P.
         if sig \<noteq> hmac_sha1 toy_lib [1, 2, 3] P then Inr [] else Inr P)"
proof -
  have "decryptToken toy_lib toy_keys
          (toy_encrypted_key @ [word_of_int 0, word_of_int 60] @ sig @ body) =
        and_then (rsa_decrypt toy_lib (private_key toy_keys) toy_encrypted_key) (\<lambda>k.
        and_then (aes_128_cbc_decrypt toy_lib k (derive_iv toy_encrypted_key 0 60) body) (\<lambda>P.
        if sig \<noteq> hmac_sha1 toy_lib (secret_key toy_keys) P then Inr [] else Inr P))"
    by (rule decryptToken_long_shape[OF length_toy_encrypted_key _ _ _ _ assms toy_private_pem_ok])
       simp_all
  then show ?thesis by (simp add: toy_rsa_decrypt_key toy_keys_def)
qed

lemma toy_body_decrypts:
  "aes_128_cbc_decrypt toy_lib (replicate 16 7) (derive_iv toy_encrypted_key 0 60)
     (cbc_encrypt (aes_block_encrypt toy_lib (replicate 16 7))
        (derive_iv toy_encrypted_key 0 60) (pkcs7_pad data)) = Inr data"
  by (rule aes_128_cbc_round_trip[OF toy_block_cipher_ok _ length_toy_iv]) simp

lemma toy_hmac_mismatch: "hmac_sha1 toy_lib [9, 9, 9] m \<noteq> hmac_sha1 toy_lib [1, 2, 3] m"
  by (simp add: toy_lib_def)

lemma decryptToken_sample: "decryptToken toy_lib toy_keys sample_long_bytes
    = Inr (spec_long_plaintext sample_token_long)"
  unfolding sample_long_bytes_def decryptToken_toy_shape[OF length_toy_hmac] toy_body_decrypts
  by simp

lemma decryptToken_forged: "decryptToken toy_lib toy_keys forged_long_bytes = Inr []"
  unfolding forged_long_bytes_def decryptToken_toy_shape[OF length_toy_hmac] toy_body_decrypts
  using toy_hmac_mismatch by simp

section \<open>Tampering\<close>

lemma length_flip_bit [simp]: "length (flip_bit buf i j) = length buf"
  by (simp add: flip_bit_def)

lemma flip_bit_append_right:
  "length xs \<le> i \<Longrightarrow> flip_bit (xs @ ys) i j = xs @ flip_bit ys (i - length xs) j"
  by (simp add: flip_bit_def list_update_append nth_append)

lemma flip_bit_append_left:
  "i < length xs \<Longrightarrow> flip_bit (xs @ ys) i j = flip_bit xs i j @ ys"
  by (simp add: flip_bit_def list_update_append nth_append)

lemma push_bit_1_byte_nonzero: "j < 8 \<Longrightarrow> push_bit j (1::byte) \<noteq> 0"
proof
  assume j: "j < 8" and z: "push_bit j (1::byte) = 0"
  have "bit (push_bit j (1::byte)) j" using j by (simp add: bit_simps)
  with z j show False by simp
qed

lemma flip_bit_changes:
  assumes "j < 8" "i < length buf"
  shows "flip_bit buf i j \<noteq> buf"
proof
  assume "flip_bit buf i j = buf"
  then have "flip_bit buf i j ! i = buf ! i" by simp
  then have e: "(buf ! i) XOR push_bit j 1 = buf ! i" using assms(2) by (simp add: flip_bit_def)
  have "push_bit j (1::byte) = (buf ! i) XOR ((buf ! i) XOR push_bit j 1)"
    by (simp only: xor.assoc[symmetric] xor_self_eq xor.left_neutral)
  also have "\<dots> = (buf ! i) XOR (buf ! i)" by (simp only: e)
  also have "\<dots> = 0" by (simp only: xor_self_eq)
  finally show False using push_bit_1_byte_nonzero[OF assms(1)] by simp
qed

lemma flip_bit_long_shape_sig:
  assumes "length ek = 128" "length sig = 20" "0x82 \<le> i" "i < 0x96"
  shows "flip_bit (ek @ [a, b] @ sig @ body) i j = ek @ [a, b] @ flip_bit sig (i - 0x82) j @ body"
proof -
  have 1: "flip_bit (ek @ [a, b] @ sig @ body) i j = ek @ flip_bit ([a, b] @ sig @ body) (i - 128) j"
    using assms by (simp add: flip_bit_append_right)
  have 2: "flip_bit ([a, b] @ sig @ body) (i - 128) j = [a, b] @ flip_bit (sig @ body) (i - 128 - 2) j"
    using assms flip_bit_append_right[of "[a, b]" "i - 128" "sig @ body" j] by simp
  have 3: "flip_bit (sig @ body) (i - 128 - 2) j = flip_bit sig (i - 128 - 2) j @ body"
    using assms by (simp add: flip_bit_append_left)
  have "i - 128 - 2 = i - 0x82" by simp
  then show ?thesis using 1 2 3 by simp
qed

lemma flip_bit_long_shape_body:
  assumes "length ek = 128" "length sig = 20" "0x96 \<le> i"
  shows "flip_bit (ek @ [a, b] @ sig @ body) i j = ek @ [a, b] @ sig @ flip_bit body (i - 0x96) j"
proof -
  have 1: "flip_bit (ek @ [a, b] @ sig @ body) i j = ek @ flip_bit ([a, b] @ sig @ body) (i - 128) j"
    using assms by (simp add: flip_bit_append_right)
  have 2: "flip_bit ([a, b] @ sig @ body) (i - 128) j = [a, b] @ flip_bit (sig @ body) (i - 128 - 2) j"
    using assms flip_bit_append_right[of "[a, b]" "i - 128" "sig @ body" j] by simp
  have 3: "flip_bit (sig @ body) (i - 128 - 2) j = sig @ flip_bit body (i - 128 - 2 - 20) j"
    using assms flip_bit_append_right[of sig "i - 128 - 2" body j] by simp
  have "i - 128 - 2 - 20 = i - 0x96" by simp
  then show ?thesis using 1 2 3 by simp
qed

lemma aes_128_cbc_decrypt_Inr:
  assumes "aes_128_cbc_decrypt lib key iv ct = Inr P"
  shows "length key = 16 \<and> length iv = 16 \<and> length ct mod 16 = 0 \<and>
         pkcs7_unpad (cbc_decrypt (aes_block_decrypt lib key) iv ct) = Inr P"
  using assms by (auto simp: aes_128_cbc_decrypt_def split: if_splits)

text \<open>Two ciphertexts of one length that decrypt to one plaintext are equal.\<close>

lemma aes_128_cbc_decrypt_inj:
  assumes "block_cipher_ok lib" "aes_128_cbc_decrypt lib key iv ct = Inr P"
    "aes_128_cbc_decrypt lib key iv ct' = Inr P" "length ct = length ct'"
  shows "ct = ct'"
proof -
  let ?E = "aes_block_encrypt lib key" and ?D = "aes_block_decrypt lib key"
  note a = aes_128_cbc_decrypt_Inr[OF assms(2)] and b = aes_128_cbc_decrypt_Inr[OF assms(3)]
  have k: "length key = 16" and iv: "length iv = 16" using a by simp_all
  have blk: "\<And>b. length b = 16 \<Longrightarrow> length (?D b) = 16 \<and> ?E (?D b) = b"
    using block_cipher_okD[OF assms(1) k] by simp
  have ra: "cbc_encrypt ?E iv (cbc_decrypt ?D iv ct) = ct \<and> length (cbc_decrypt ?D iv ct) = length ct"
    by (rule cbc_round_trip_rev[of ?D ?E iv ct, OF blk iv a[THEN conjunct2, THEN conjunct2, THEN conjunct1]])
  have rb: "cbc_encrypt ?E iv (cbc_decrypt ?D iv ct') = ct' \<and> length (cbc_decrypt ?D iv ct') = length ct'"
    by (rule cbc_round_trip_rev[of ?D ?E iv ct', OF blk iv b[THEN conjunct2, THEN conjunct2, THEN conjunct1]])
  have ua: "pkcs7_unpad (cbc_decrypt ?D iv ct) = Inr P"
    by (rule a[THEN conjunct2, THEN conjunct2, THEN conjunct2])
  have ub: "pkcs7_unpad (cbc_decrypt ?D iv ct') = Inr P"
    by (rule b[THEN conjunct2, THEN conjunct2, THEN conjunct2])
  have len: "length (cbc_decrypt ?D iv ct) = length (cbc_decrypt ?D iv ct')"
    using ra[THEN conjunct2] rb[THEN conjunct2] assms(4) by (simp only:)
  have eq: "cbc_decrypt ?D iv ct = cbc_decrypt ?D iv ct'"
    by (rule pkcs7_unpad_inj[OF ua ub len])
  have "ct = cbc_encrypt ?E iv (cbc_decrypt ?D iv ct)" by (rule ra[THEN conjunct1, symmetric])
  also have "\<dots> = cbc_encrypt ?E iv (cbc_decrypt ?D iv ct')" by (simp only: eq)
  also have "\<dots> = ct'" by (rule rb[THEN conjunct1])
  finally show ?thesis .
qed

lemma nth_xor_bytes:
  "k < length a \<Longrightarrow> k < length b \<Longrightarrow> xor_bytes a b ! k = (a ! k) XOR (b ! k)"
  by (simp add: xor_bytes_def)

lemma xor_bytes_flip:
  assumes "length a = length b"
  shows "xor_bytes (xor_bytes a b) (flip_bit b i j) = flip_bit a i j"
proof (rule nth_equalityI)
  show "length (xor_bytes (xor_bytes a b) (flip_bit b i j)) = length (flip_bit a i j)"
    using assms by simp
next
  fix k assume "k < length (xor_bytes (xor_bytes a b) (flip_bit b i j))"
  then have k: "k < length a" "k < length b" using assms by simp_all
  have c: "((a ! k) XOR (b ! k)) XOR (b ! k) = a ! k"
    by (simp only: xor.assoc xor_self_eq xor.right_neutral)
  have d: "((a ! k) XOR (b ! k)) XOR ((b ! k) XOR push_bit j 1) = (a ! k) XOR push_bit j 1"
    by (simp only: xor.assoc[symmetric] c)
  show "xor_bytes (xor_bytes a b) (flip_bit b i j) ! k = flip_bit a i j ! k"
  proof (cases "k = i")
    case True
    then show ?thesis using k d by (simp add: nth_xor_bytes flip_bit_def)
  next
    case False
    then show ?thesis using k c by (simp add: nth_xor_bytes flip_bit_def)
  qed
qed

lemma cbc_encrypt_two_blocks:
  assumes "length a = 16" "length b = 16"
  shows "cbc_encrypt E iv (a @ b) = E (xor_bytes a iv) @ E (xor_bytes b (E (xor_bytes a iv)))"
proof -
  have ne: "a @ b \<noteq> []" "b \<noteq> []" using assms by auto
  have 1: "cbc_encrypt E iv (a @ b)
      = E (xor_bytes a iv) @ cbc_encrypt E (E (xor_bytes a iv)) b"
    using assms ne by (subst cbc_encrypt.simps) (simp add: Let_def)
  have 2: "cbc_encrypt E c b = E (xor_bytes b c) @ cbc_encrypt E (E (xor_bytes b c)) []" for c
    using assms ne by (subst cbc_encrypt.simps) (simp add: Let_def)
  have 3: "cbc_encrypt E c [] = []" for c by (simp add: cbc_encrypt.simps)
  show ?thesis unfolding 1 2 3 by simp
qed

lemma cbc_decrypt_two_blocks:
  assumes "length c1 = 16" "length c2 = 16"
  shows "cbc_decrypt D iv (c1 @ c2) = xor_bytes (D c1) iv @ xor_bytes (D c2) c1"
proof -
  have ne: "c1 @ c2 \<noteq> []" "c2 \<noteq> []" using assms by auto
  have 1: "cbc_decrypt D iv (c1 @ c2) = xor_bytes (D c1) iv @ cbc_decrypt D c1 c2"
    using assms ne by (subst cbc_decrypt.simps) simp
  have 2: "cbc_decrypt D c1 c2 = xor_bytes (D c2) c1 @ cbc_decrypt D c2 []"
    using assms ne by (subst cbc_decrypt.simps) simp
  have 3: "cbc_decrypt D c [] = []" for c by (simp add: cbc_decrypt.simps)
  show ?thesis unfolding 1 2 3 by simp
qed

lemma replicate_9: "replicate 9 x = x # replicate 8 x"
  by (simp add: eval_nat_numeral)

text \<open>
  A 23-byte plaintext is padded with nine bytes 9 that fill bytes 7 to 15 of the second
  block.  In CBC a bit of the first ciphertext block goes to the same bit of the second
  plaintext block, so bit 0 of byte 7 flipped makes the first padding byte 8 and the
  unpadding of \<open>final()\<close> fails, whatever the block permutation.
\<close>

lemma flipped_padding_bad_decrypt:
  assumes "block_cipher_ok lib" "length key = 16" "length iv = 16" "length data = 23"
  shows "aes_128_cbc_decrypt lib key iv
           (flip_bit (cbc_encrypt (aes_block_encrypt lib key) iv (pkcs7_pad data)) 7 0)
         = Inl ERR_OSSL_BAD_DECRYPT"
proof -
  let ?E = "aes_block_encrypt lib key" and ?D = "aes_block_decrypt lib key"
  let ?P1 = "take 16 data" and ?P2 = "drop 16 data @ replicate 9 9"
  let ?c1 = "?E (xor_bytes ?P1 iv)"
  let ?c2 = "?E (xor_bytes ?P2 ?c1)"
  let ?X = "xor_bytes (?D (flip_bit ?c1 7 0)) iv"
  note blk = block_cipher_okD[OF assms(1,2)]
  have l1: "length ?P1 = 16" and l2: "length ?P2 = 16" using assms(4) by simp_all
  have pad: "pkcs7_pad data = ?P1 @ ?P2"
    using assms(4) by (simp add: pkcs7_pad_def)
  have lx1: "length (xor_bytes ?P1 iv) = 16" using l1 assms(3) by simp
  have lc1: "length ?c1 = 16" by (rule blk(1)[OF lx1])
  have lx2: "length (xor_bytes ?P2 ?c1) = 16" using l2 lc1 by simp
  have lc2: "length ?c2 = 16" by (rule blk(1)[OF lx2])
  have ct: "cbc_encrypt ?E iv (pkcs7_pad data) = ?c1 @ ?c2"
    unfolding pad by (rule cbc_encrypt_two_blocks[OF l1 l2])
  have fl: "flip_bit (?c1 @ ?c2) 7 0 = flip_bit ?c1 7 0 @ ?c2"
    using lc1 by (simp add: flip_bit_append_left)
  have lf: "length (flip_bit ?c1 7 0) = 16" using lc1 by simp
  have dec: "cbc_decrypt ?D iv (flip_bit ?c1 7 0 @ ?c2)
      = ?X @ xor_bytes (?D ?c2) (flip_bit ?c1 7 0)"
    by (rule cbc_decrypt_two_blocks[OF lf lc2])
  have d2: "?D ?c2 = xor_bytes ?P2 ?c1" by (rule blk(3)[OF lx2])
  have "xor_bytes (xor_bytes ?P2 ?c1) (flip_bit ?c1 7 0) = flip_bit ?P2 7 0"
    using l2 lc1 by (intro xor_bytes_flip) simp
  also have "\<dots> = drop 16 data @ flip_bit (replicate 9 9) 0 0"
    using assms(4) flip_bit_append_right[of "drop 16 data" 7 "replicate 9 9" 0] by simp
  also have "flip_bit (replicate 9 (9::byte)) 0 0 = 8 # replicate 8 9"
    by (simp add: flip_bit_def replicate_9)
  finally have p2: "xor_bytes (?D ?c2) (flip_bit ?c1 7 0) = drop 16 data @ 8 # replicate 8 9"
    unfolding d2 .
  have lX: "length ?X = 16" using blk(2)[OF lf] assms(3) by simp
  let ?bs = "?X @ drop 16 data @ 8 # replicate 8 (9::byte)"
  have last: "last ?bs = 9" by simp
  have len: "length ?bs = 32" using lX assms(4) by simp
  have dr: "drop (32 - 9) ?bs = 8 # replicate 8 9" using lX assms(4) by simp
  have un: "pkcs7_unpad ?bs = Inl ERR_OSSL_BAD_DECRYPT"
    unfolding pkcs7_unpad_def last len Let_def using dr by (simp add: replicate_9)
  have lt: "length (flip_bit ?c1 7 0 @ ?c2) = 32" using lf lc2 by simp
  have "aes_128_cbc_decrypt lib key iv (flip_bit ?c1 7 0 @ ?c2) = pkcs7_unpad ?bs"
    unfolding aes_128_cbc_decrypt_def dec p2 using assms(2,3) lt lf by auto
  then show ?thesis unfolding ct fl un .
qed

lemma toy_points:
  "mul_to_int32 120 (random1 toy_entropy) = 0" "mul_to_int32 120 (random2 toy_entropy) = 60"
  by (simp_all add: toy_entropy_def round_to_53_def excess_bits.simps to_int32_def Let_def)

lemma toy_rsa_encrypt_key:
  "rsa_encrypt toy_lib (public_key toy_options) (oaep_seed toy_entropy) (random_key toy_entropy)
     = Inr toy_encrypted_key"
  by (simp add: toy_lib_def toy_entropy_def toy_encrypted_key_def)

lemma sample_token_long_not_falsy:
  "\<not> falsy (access_level sample_token_long)" "\<not> falsy (title_id sample_token_long)"
  by (simp_all add: falsy_def sample_token_long_def)

lemma toy_secrets_match: "hmac_secret toy_options = secret_key toy_keys"
  by (simp add: toy_options_def toy_keys_def)

text \<open>\<open>sample_long_bytes\<close> is the token that \<open>generateToken\<close> makes of \<open>sample_token_long\<close>.\<close>

lemma generateToken_sample:
  "generateToken toy_lib toy_keys toy_entropy (Some toy_options) sample_token_long
     = Inr (Some (toString_base64 sample_long_bytes))"
proof -
  have pem: "public_pem_ok toy_lib (public_key toy_options)" by (simp add: toy_lib_def)
  have k: "random_key toy_entropy = replicate 16 7" by (simp add: toy_entropy_def)
  have s: "hmac_secret toy_options = [1, 2, 3]" by (simp add: toy_options_def)
  show ?thesis
    unfolding generateToken_long[OF pem toy_rsa_encrypt_key length_toy_encrypted_key
        toy_entropy_ok sample_token_long_ok sample_token_long_not_falsy]
      toy_points k s sample_long_bytes_def
    by simp
qed

text \<open>The shape of a produced long token, with everything \<open>decryptToken\<close> needs.\<close>

lemma produced_long_shape:
  assumes "rsa_1024_pair lib (public_key co) (private_key keys)" "hmac_sha1_ok lib"
    "entropy_ok rnd" "generateToken lib keys rnd (Some co) F = Inr (Some wire)"
  shows "\<exists>ek p1 p2.
           length ek = 128 \<and> 0 \<le> p1 \<and> p1 < 120 \<and> 0 \<le> p2 \<and> p2 < 120 \<and>
           length (random_key rnd) = 16 \<and> length (derive_iv ek p1 p2) = 16 \<and>
           length (spec_long_plaintext F) = 23 \<and>
           length (hmac_sha1 lib (hmac_secret co) (spec_long_plaintext F)) = 20 \<and>
           private_pem_ok lib (private_key keys) \<and>
           rsa_decrypt lib (private_key keys) ek = Inr (random_key rnd) \<and>
           long_fields_ok F \<and>
           from_base64 wire =
             ek @ [word_of_int p1, word_of_int p2]
                @ hmac_sha1 lib (hmac_secret co) (spec_long_plaintext F)
                @ cbc_encrypt (aes_block_encrypt lib (random_key rnd)) (derive_iv ek p1 p2)
                    (pkcs7_pad (spec_long_plaintext F))"
proof -
  let ?p1 = "mul_to_int32 120 (random1 rnd)" and ?p2 = "mul_to_int32 120 (random2 rnd)"
  have e: "length (random_key rnd) = 16" "is_unit_double (random1 rnd)" "is_unit_double (random2 rnd)"
    using assms(3) by (simp_all add: entropy_ok_def)
  have p: "0 \<le> ?p1" "?p1 < 120" "0 \<le> ?p2" "?p2 < 120"
    using point_range[OF e(2)] point_range[OF e(3)] by simp_all
  have pem: "private_pem_ok lib (private_key keys)" using assms(1) by (simp add: rsa_1024_pair_def)
  from generateToken_long_Some[OF assms(1,3,4)] obtain ek where
    ek: "length ek = 128" "rsa_decrypt lib (private_key keys) ek = Inr (random_key rnd)"
      "long_fields_ok F" and
    wire: "wire = toString_base64
             (ek @ [word_of_int ?p1, word_of_int ?p2]
                 @ hmac_sha1 lib (hmac_secret co) (spec_long_plaintext F)
                 @ cbc_encrypt (aes_block_encrypt lib (random_key rnd))
                     (derive_iv ek ?p1 ?p2) (pkcs7_pad (spec_long_plaintext F)))"
    by blast
  have iv: "length (derive_iv ek ?p1 ?p2) = 16" using p ek(1) by (simp add: length_derive_iv)
  have sg: "length (hmac_sha1 lib (hmac_secret co) (spec_long_plaintext F)) = 20"
    using assms(2) by (simp add: hmac_sha1_ok_def)
  have fb: "from_base64 wire =
      ek @ [word_of_int ?p1, word_of_int ?p2]
         @ hmac_sha1 lib (hmac_secret co) (spec_long_plaintext F)
         @ cbc_encrypt (aes_block_encrypt lib (random_key rnd))
             (derive_iv ek ?p1 ?p2) (pkcs7_pad (spec_long_plaintext F))"
    unfolding wire by (rule from_base64_toString)
  show ?thesis
    using ek(1) p(1) p(2) p(3) p(4) e(1) iv length_spec_long_plaintext[of F] sg pem ek(2) ek(3) fb
    by (intro exI[of _ ek] exI[of _ ?p1] exI[of _ ?p2] conjI)
qed

text \<open>Bit 0 of byte 7 of the encrypted body flipped: \<open>decryptToken\<close> raises, for every
  library and every produced long token.\<close>

lemma tampered_padding_raises:
  assumes "block_cipher_ok lib" "rsa_1024_pair lib (public_key co) (private_key keys)"
    "hmac_sha1_ok lib" "entropy_ok rnd"
    "generateToken lib keys rnd (Some co) F = Inr (Some wire)"
  shows "decryptToken lib keys (flip_bit (from_base64 wire) (0x96 + 7) 0)
         = Inl ERR_OSSL_BAD_DECRYPT"
proof -
  from produced_long_shape[OF assms(2,3,4,5)] obtain ek p1 p2 where
    s: "length ek = 128" "0 \<le> p1" "p1 < 120" "0 \<le> p2" "p2 < 120"
      "length (random_key rnd) = 16" "length (derive_iv ek p1 p2) = 16"
      "length (spec_long_plaintext F) = 23"
      "length (hmac_sha1 lib (hmac_secret co) (spec_long_plaintext F)) = 20"
      "private_pem_ok lib (private_key keys)"
      "rsa_decrypt lib (private_key keys) ek = Inr (random_key rnd)" and
    fb: "from_base64 wire =
             ek @ [word_of_int p1, word_of_int p2]
                @ hmac_sha1 lib (hmac_secret co) (spec_long_plaintext F)
                @ cbc_encrypt (aes_block_encrypt lib (random_key rnd)) (derive_iv ek p1 p2)
                    (pkcs7_pad (spec_long_plaintext F))"
    by blast
  have i: "(0x96::nat) \<le> 0x96 + 7" "(0x96 + 7 :: nat) - 0x96 = 7" by simp_all
  show ?thesis
    unfolding fb flip_bit_long_shape_body[OF s(1) s(9) i(1)] i(2)
      decryptToken_long_shape[OF s(1,2,3,4,5,9,10)] s(11) and_then_Inr
      flipped_padding_bad_decrypt[OF assms(1) s(6,7,8)] and_then_Inl ..
qed




text \<open>
  Decoding ends in an exception for a buffer of 33 zero bytes (the read of \<open>point1\<close> at
  0x80 is out of range), for the empty buffer (there is no final block) and for a token
  with a forged signature (\<open>unpackToken\<close> reads byte 0 of the empty buffer that
  \<open>decryptToken\<close> returned).
\<close>

theorem decode_raises:
  "decode_bytes toy_lib toy_keys (replicate 33 0) = Inl ERR_OUT_OF_RANGE \<and>
   decode_bytes toy_lib toy_keys [] = Inl ERR_OSSL_WRONG_FINAL_BLOCK_LENGTH \<and>
   decryptToken toy_lib toy_keys forged_long_bytes = Inr [] \<and>
   decode_bytes toy_lib toy_keys forged_long_bytes = Inl ERR_BUFFER_OUT_OF_BOUNDS"
proof -
  have 1: "decode_bytes toy_lib toy_keys (replicate 33 0) = Inl ERR_OUT_OF_RANGE"
    by (simp add: decode_bytes_def decryptToken_too_short)
  have 2: "decode_bytes toy_lib toy_keys [] = Inl ERR_OSSL_WRONG_FINAL_BLOCK_LENGTH"
    by (simp add: decode_bytes_def decryptToken_def is_short_format_def aes_128_cbc_decrypt_def
        toy_keys_def)
  have 3: "decode_bytes toy_lib toy_keys forged_long_bytes = Inl ERR_BUFFER_OUT_OF_BOUNDS"
    by (simp add: decode_bytes_def decryptToken_forged unpackToken_empty)
  show ?thesis using 1 2 3 decryptToken_forged by (intro conjI)
qed

theorem decode_outcomes_witness:
  "length (aes_key toy_keys) = 16 \<and> length (replicate 5 0 :: bytes) \<le> 32 \<and>
   length (replicate 5 0 :: bytes) mod 16 \<noteq> 0 \<and>
   decode_bytes toy_lib toy_keys (replicate 5 0) = Inl ERR_OSSL_WRONG_FINAL_BLOCK_LENGTH \<and>
   private_pem_ok toy_lib (private_key toy_keys) \<and>
   32 < length (replicate 100 0 :: bytes) \<and> length (replicate 100 0 :: bytes) < 0x82 \<and>
   decode_bytes toy_lib toy_keys (replicate 100 0) = Inl ERR_OUT_OF_RANGE \<and>
   decryptToken toy_lib toy_keys sample_long_bytes = Inr (spec_long_plaintext sample_token_long) \<and>
   decode_bytes toy_lib toy_keys sample_long_bytes
     = Inr (long_fields_of (spec_long_plaintext sample_token_long))"
proof -
  have a: "length (aes_key toy_keys) = 16 \<and> length (replicate 5 0 :: bytes) \<le> 32 \<and>
      ((replicate 5 0 :: bytes) = [] \<or> length (replicate 5 0 :: bytes) mod 16 \<noteq> 0)"
    by (simp add: toy_keys_def)
  have b: "private_pem_ok toy_lib (private_key toy_keys) \<and>
      32 < length (replicate 100 0 :: bytes) \<and> length (replicate 100 0 :: bytes) < 0x82"
    by (simp add: toy_private_pem_ok)
  have 1: "decode_bytes toy_lib toy_keys (replicate 5 0) = Inl ERR_OSSL_WRONG_FINAL_BLOCK_LENGTH"
    using decode_outcomes[of toy_lib toy_keys "replicate 5 0"] a by blast
  have 2: "decode_bytes toy_lib toy_keys (replicate 100 0) = Inl ERR_OUT_OF_RANGE"
    using decode_outcomes[of toy_lib toy_keys "replicate 100 0"] b by blast
  have 3: "decode_bytes toy_lib toy_keys sample_long_bytes
     = Inr (long_fields_of (spec_long_plaintext sample_token_long))"
    using decode_outcomes[of toy_lib toy_keys sample_long_bytes, THEN conjunct1]
    by (simp add: decryptToken_sample length_spec_long_plaintext)
  show ?thesis
    using a b 1 2 3 decryptToken_sample by (intro conjI) simp_all
qed

section \<open>A signature made under another secret\<close>

lemma generateToken_forged:
  "generateToken toy_lib toy_keys toy_entropy (Some other_secret_options) sample_token_long
     = Inr (Some (toString_base64 forged_long_bytes))"
proof -
  have pem: "public_pem_ok toy_lib (public_key other_secret_options)" by (simp add: toy_lib_def)
  have enc: "rsa_encrypt toy_lib (public_key other_secret_options) (oaep_seed toy_entropy)
      (random_key toy_entropy) = Inr toy_encrypted_key"
    by (simp add: toy_lib_def toy_entropy_def toy_encrypted_key_def)
  have k: "random_key toy_entropy = replicate 16 7" by (simp add: toy_entropy_def)
  have s: "hmac_secret other_secret_options = [9, 9, 9]" by (simp add: other_secret_options_def)
  show ?thesis
    unfolding generateToken_long[OF pem enc length_toy_encrypted_key
        toy_entropy_ok sample_token_long_ok sample_token_long_not_falsy]
      toy_points k s forged_long_bytes_def
    by simp
qed

text \<open>For every library: a produced long token whose signature the service secret does not
  reproduce makes \<open>decryptToken\<close> return the empty buffer, on which \<open>unpackToken\<close> raises.\<close>

lemma other_secret_empty_buffer:
  assumes "block_cipher_ok lib" "rsa_1024_pair lib (public_key co) (private_key keys)"
    "hmac_sha1_ok lib" "entropy_ok rnd"
    "generateToken lib keys rnd (Some co) F = Inr (Some wire)"
    "hmac_sha1 lib (hmac_secret co) (spec_long_plaintext F)
       \<noteq> hmac_sha1 lib (secret_key keys) (spec_long_plaintext F)"
  shows "decryptToken lib keys (from_base64 wire) = Inr []"
    and "decode lib keys wire = Inl ERR_BUFFER_OUT_OF_BOUNDS"
proof -
  from produced_long_shape[OF assms(2,3,4,5)] obtain ek p1 p2 where
    s: "length ek = 128" "0 \<le> p1" "p1 < 120" "0 \<le> p2" "p2 < 120"
      "length (random_key rnd) = 16" "length (derive_iv ek p1 p2) = 16"
      "length (spec_long_plaintext F) = 23"
      "length (hmac_sha1 lib (hmac_secret co) (spec_long_plaintext F)) = 20"
      "private_pem_ok lib (private_key keys)"
      "rsa_decrypt lib (private_key keys) ek = Inr (random_key rnd)" and
    fb: "from_base64 wire =
             ek @ [word_of_int p1, word_of_int p2]
                @ hmac_sha1 lib (hmac_secret co) (spec_long_plaintext F)
                @ cbc_encrypt (aes_block_encrypt lib (random_key rnd)) (derive_iv ek p1 p2)
                    (pkcs7_pad (spec_long_plaintext F))"
    by blast
  show d: "decryptToken lib keys (from_base64 wire) = Inr []"
    unfolding fb decryptToken_long_shape[OF s(1,2,3,4,5,9,10)] s(11) and_then_Inr
      aes_128_cbc_round_trip[OF assms(1) s(6,7)]
    using assms(6) by simp
  show "decode lib keys wire = Inl ERR_BUFFER_OUT_OF_BOUNDS"
    unfolding decode_def decode_bytes_def d and_then_Inr by (rule unpackToken_empty)
qed

text \<open>
  Claim C3, at the input where it fails.  C3 says that a signature mismatch gives an
  explicit integrity failure, a result that differs from a successful decode, and no
  exception.  \<open>forged_long_bytes\<close> is the token that \<open>generateToken\<close> makes of
  \<open>sample_token_long\<close> under an HMAC secret that is not the secret of the service.  Its AES
  decryption succeeds and its signature does not match: \<open>decryptToken\<close> returns the empty
  buffer, a value of the type of a decrypted body (the comment at the return reads
  \<open>TODO - FIX THIS\<close>), and the decode pipeline then raises \<open>ERR_BUFFER_OUT_OF_BOUNDS\<close> at the
  first read of \<open>unpackToken\<close>.
\<close>

theorem forged_signature_empty_buffer:
  "generateToken toy_lib toy_keys toy_entropy (Some other_secret_options) sample_token_long
     = Inr (Some (toString_base64 forged_long_bytes)) \<and>
   hmac_sha1 toy_lib (hmac_secret other_secret_options) (spec_long_plaintext sample_token_long)
     \<noteq> hmac_sha1 toy_lib (secret_key toy_keys) (spec_long_plaintext sample_token_long) \<and>
   decryptToken toy_lib toy_keys (from_base64 (toString_base64 forged_long_bytes)) = Inr [] \<and>
   decode toy_lib toy_keys (toString_base64 forged_long_bytes) = Inl ERR_BUFFER_OUT_OF_BOUNDS"
proof -
  have ne: "hmac_sha1 toy_lib (hmac_secret other_secret_options)
        (spec_long_plaintext sample_token_long)
     \<noteq> hmac_sha1 toy_lib (secret_key toy_keys) (spec_long_plaintext sample_token_long)"
    using toy_hmac_mismatch by (simp add: other_secret_options_def toy_keys_def)
  note r = other_secret_empty_buffer[OF toy_block_cipher_ok toy_rsa_1024_pair toy_hmac_sha1_ok
      toy_entropy_ok generateToken_forged ne]
  show ?thesis using generateToken_forged ne r by (intro conjI)
qed

end
